theory Spec2Isabelle
  imports
    Main
    "HOL-Library.AList"
    "HOL-Library.FSet"
    "HOL-Library.Char_ord"
    "HOL-Library.List_Lexorder"
begin

section \<open>Data model\<close>

text \<open>
  The storage module keeps eight module-level collections. A Python \<open>dict\<close> whose iteration
  order is observed (\<open>users\<close>, \<open>posts\<close>, \<open>hashtag_posts\<close>) is an association list in
  insertion order: \<open>AList.update\<close> overwrites an existing key in place and appends a new
  one, \<open>AList.delete\<close> removes a key, \<open>map_of\<close> looks one up. The other dicts are only
  looked up by key and are maps. A Python \<open>set\<close> is a finite set. A string is a list of
  characters and a character is a code point below 256; on these code points the word
  class \<open>\w\<close> of the \<open>re\<close> module, \<open>str.lower\<close> and the whitespace of \<open>str.strip\<close> are
  written out below as Python 3 defines them (\<open>str.lower\<close> maps each of these code points
  to one code point below 256 and does not look at its neighbours).

  Identifiers come from \<open>uuid.uuid4()\<close> and timestamps from \<open>datetime.utcnow().isoformat()\<close>;
  both are inputs of the environment and are parameters of the operations that draw them.
\<close>

datatype media_type = Image | Video

record user =
  u_id :: string
  u_username :: string
  u_display_name :: string
  u_bio :: string
  u_profile_pic_url :: string
  u_created_at :: string

record post =
  p_id :: string
  p_user_id :: string
  p_media_url :: string
  p_media_type :: media_type
  p_caption :: string
  p_hashtags :: "string list"
  p_created_at :: string

record comment =
  c_id :: string
  c_user_id :: string
  c_post_id :: string
  c_text :: string
  c_created_at :: string

record storage =
  users :: "(string \<times> user) list"
  posts :: "(string \<times> post) list"
  follows :: "string \<rightharpoonup> string fset"
  followers :: "string \<rightharpoonup> string fset"
  likes :: "string \<rightharpoonup> string fset"
  comments :: "string \<rightharpoonup> comment"
  post_comments :: "string \<rightharpoonup> string list"
  hashtag_posts :: "(string \<times> string fset) list"

text \<open>The state after \<open>reset_storage()\<close>, which is also the state at import time.\<close>

definition reset_storage :: storage where
  "reset_storage =
     \<lparr>users = [], posts = [], follows = Map.empty, followers = Map.empty,
      likes = Map.empty, comments = Map.empty, post_comments = Map.empty,
      hashtag_posts = []\<rparr>"

subsection \<open>Request and response models\<close>

record UserCreate =
  uc_username :: string
  uc_display_name :: string
  uc_bio :: string
  uc_profile_pic_url :: string

record UserUpdate =
  uu_display_name :: "string option"
  uu_bio :: "string option"
  uu_profile_pic_url :: "string option"

record UserOut =
  uo_id :: string
  uo_username :: string
  uo_display_name :: string
  uo_bio :: string
  uo_profile_pic_url :: string
  uo_created_at :: string
  uo_follower_count :: nat
  uo_following_count :: nat
  uo_post_count :: nat

record PostCreate =
  pc_user_id :: string
  pc_media_url :: string
  pc_media_type :: media_type
  pc_caption :: string

record PostOut =
  po_id :: string
  po_user_id :: string
  po_media_url :: string
  po_media_type :: media_type
  po_caption :: string
  po_hashtags :: "string list"
  po_created_at :: string
  po_like_count :: nat
  po_comment_count :: nat

record CommentCreate =
  cc_user_id :: string
  cc_text :: string

record CommentOut =
  co_id :: string
  co_user_id :: string
  co_post_id :: string
  co_text :: string
  co_created_at :: string

record LikeAction =
  la_user_id :: string

record HashtagCount =
  tag :: string
  count :: nat

subsection \<open>Errors and results\<close>

text \<open>
  A handler either returns a value or raises \<open>HTTPException(status_code, detail)\<close>. The
  storage is global and mutated in place, so whatever a handler wrote before it raised
  stays written: every handler returns the storage it leaves behind together with its
  outcome.
\<close>

datatype http_error = HTTPException nat string

type_synonym 'a result = "storage \<times> (http_error + 'a)"

fun status_code :: "http_error \<Rightarrow> nat" where
  "status_code (HTTPException n d) = n"

definition failed :: "'a result \<Rightarrow> bool" where
  "failed r = (case snd r of Inl e \<Rightarrow> True | Inr v \<Rightarrow> False)"

subsection \<open>Dictionary and list helpers\<close>

text \<open>\<open>d.get(k, default)\<close> on a map.\<close>

definition get_or :: "('k \<rightharpoonup> 'v) \<Rightarrow> 'k \<Rightarrow> 'v \<Rightarrow> 'v" where
  "get_or m k d = (case m k of None \<Rightarrow> d | Some v \<Rightarrow> v)"

text \<open>\<open>d.setdefault(k, default)\<close>: the dict afterwards (the value returned is \<open>get_or\<close> of it).\<close>

definition setdefault :: "('k \<rightharpoonup> 'v) \<Rightarrow> 'k \<Rightarrow> 'v \<Rightarrow> ('k \<rightharpoonup> 'v)" where
  "setdefault m k d = (case m k of None \<Rightarrow> m(k \<mapsto> d) | Some v \<Rightarrow> m)"

text \<open>
  \<open>xs.sort(key=f, reverse=True)\<close>: CPython reverses the list, sorts it stably in ascending
  order and reverses it again, so that equal keys keep their original order.
\<close>

definition sort_reverse :: "('a \<Rightarrow> 'k::linorder) \<Rightarrow> 'a list \<Rightarrow> 'a list" where
  "sort_reverse f xs = rev (sort_key f (rev xs))"

section \<open>Users\<close>

definition following_of :: "storage \<Rightarrow> string \<Rightarrow> string fset" where
  "following_of s uid = get_or (follows s) uid {||}"

definition followers_of :: "storage \<Rightarrow> string \<Rightarrow> string fset" where
  "followers_of s uid = get_or (followers s) uid {||}"

definition build_user_out :: "storage \<Rightarrow> user \<Rightarrow> UserOut" where
  "build_user_out s usr =
     \<lparr>uo_id = u_id usr, uo_username = u_username usr,
      uo_display_name = u_display_name usr, uo_bio = u_bio usr,
      uo_profile_pic_url = u_profile_pic_url usr, uo_created_at = u_created_at usr,
      uo_follower_count = fcard (followers_of s (u_id usr)),
      uo_following_count = fcard (following_of s (u_id usr)),
      uo_post_count = length (filter (\<lambda>p. p_user_id p = u_id usr) (map snd (posts s)))\<rparr>"

text \<open>
  \<open>create_user\<close>: the username check scans the values of \<open>users\<close>; \<open>uid\<close> and \<open>now\<close> are
  the identifier and the timestamp drawn after the check.
\<close>

definition username_taken :: "storage \<Rightarrow> string \<Rightarrow> bool" where
  "username_taken s name = list_ex (\<lambda>usr. u_username usr = name) (map snd (users s))"

definition create_user :: "string \<Rightarrow> string \<Rightarrow> UserCreate \<Rightarrow> storage \<Rightarrow> UserOut result" where
  "create_user uid now payload s =
     (if username_taken s (uc_username payload)
      then (s, Inl (HTTPException 409 ''Username already taken''))
      else
        let usr = \<lparr>u_id = uid, u_username = uc_username payload,
                   u_display_name = uc_display_name payload, u_bio = uc_bio payload,
                   u_profile_pic_url = uc_profile_pic_url payload, u_created_at = now\<rparr>;
            s1 = s\<lparr>users := AList.update uid usr (users s)\<rparr>;
            s2 = s1\<lparr>follows := setdefault (follows s1) uid {||}\<rparr>;
            s3 = s2\<lparr>followers := setdefault (followers s2) uid {||}\<rparr>
        in (s3, Inr (build_user_out s3 usr)))"

definition get_user :: "string \<Rightarrow> storage \<Rightarrow> UserOut result" where
  "get_user user_id s =
     (case map_of (users s) user_id of
        None \<Rightarrow> (s, Inl (HTTPException 404 ''User not found''))
      | Some usr \<Rightarrow> (s, Inr (build_user_out s usr)))"

definition update_user :: "string \<Rightarrow> UserUpdate \<Rightarrow> storage \<Rightarrow> UserOut result" where
  "update_user user_id payload s =
     (case map_of (users s) user_id of
        None \<Rightarrow> (s, Inl (HTTPException 404 ''User not found''))
      | Some usr \<Rightarrow>
          let usr1 = (case uu_display_name payload of
                        None \<Rightarrow> usr | Some v \<Rightarrow> usr\<lparr>u_display_name := v\<rparr>);
              usr2 = (case uu_bio payload of
                        None \<Rightarrow> usr1 | Some v \<Rightarrow> usr1\<lparr>u_bio := v\<rparr>);
              usr3 = (case uu_profile_pic_url payload of
                        None \<Rightarrow> usr2 | Some v \<Rightarrow> usr2\<lparr>u_profile_pic_url := v\<rparr>);
              s1 = s\<lparr>users := AList.update user_id usr3 (users s)\<rparr>
          in (s1, Inr (build_user_out s1 usr3)))"

section \<open>Posts\<close>

text \<open>
  The pattern \<open>#(\w+)\<close> on a \<open>str\<close>: a word character is the underscore or a character
  for which \<open>str.isalnum\<close> holds. Below 256 these are the digits, the ASCII letters, the
  underscore, and the code points 170, 178, 179, 181, 185, 186, 188 to 190, 192 to 214,
  216 to 246 and 248 to 255 (letters, superscript digits and fractions of Latin-1).
  \<open>findall\<close> scans from the left; at a \<open>#\<close> followed by at least one word character it
  takes the longest run of word characters and goes on after it, anywhere else it moves
  one character on.
\<close>

definition is_word_char :: "char \<Rightarrow> bool" where
  "is_word_char c =
     (let n = (of_char c :: nat)
      in (48 \<le> n \<and> n \<le> 57) \<or> (65 \<le> n \<and> n \<le> 90) \<or> n = 95 \<or> (97 \<le> n \<and> n \<le> 122) \<or>
         n = 170 \<or> n = 178 \<or> n = 179 \<or> n = 181 \<or> n = 185 \<or> n = 186 \<or>
         (188 \<le> n \<and> n \<le> 190) \<or> (192 \<le> n \<and> n \<le> 214) \<or> (216 \<le> n \<and> n \<le> 246) \<or>
         248 \<le> n)"

function HASHTAG_RE_findall :: "string \<Rightarrow> string list" where
  "HASHTAG_RE_findall [] = []"
| "HASHTAG_RE_findall (c # cs) =
     (if c = CHR ''#'' \<and> takeWhile is_word_char cs \<noteq> []
      then takeWhile is_word_char cs # HASHTAG_RE_findall (dropWhile is_word_char cs)
      else HASHTAG_RE_findall cs)"
  by pat_completeness auto
termination
  by (relation "measure length") (auto simp: length_dropWhile_le less_Suc_eq_le)

text \<open>
  \<open>str.lower()\<close>: below 256 the characters with a different lowercase form are the
  ASCII capitals 65 to 90 and the Latin-1 capitals 192 to 214 and 216 to 222; each is
  mapped 32 code points up. Every other character is left as it is.
\<close>

definition is_upper :: "char \<Rightarrow> bool" where
  "is_upper c =
     (let n = (of_char c :: nat)
      in (65 \<le> n \<and> n \<le> 90) \<or> (192 \<le> n \<and> n \<le> 214) \<or> (216 \<le> n \<and> n \<le> 222))"

definition lower_char :: "char \<Rightarrow> char" where
  "lower_char c = (if is_upper c then char_of (of_char c + (32::nat)) else c)"

definition lower :: "string \<Rightarrow> string" where
  "lower str = map lower_char str"

definition build_post_out :: "storage \<Rightarrow> post \<Rightarrow> PostOut" where
  "build_post_out s pst =
     \<lparr>po_id = p_id pst, po_user_id = p_user_id pst, po_media_url = p_media_url pst,
      po_media_type = p_media_type pst, po_caption = p_caption pst,
      po_hashtags = p_hashtags pst, po_created_at = p_created_at pst,
      po_like_count = fcard (get_or (likes s) (p_id pst) {||}),
      po_comment_count = length (get_or (post_comments s) (p_id pst) [])\<rparr>"

text \<open>
  The loop \<open>for tag in hashtags: store.hashtag_posts.setdefault(tag, set()).add(pid)\<close>:
  a tag already present keeps its place in the dict and gains \<open>pid\<close>, a new tag is appended.
\<close>

definition tag_set :: "(string \<times> string fset) list \<Rightarrow> string \<Rightarrow> string fset" where
  "tag_set idx t = (case map_of idx t of None \<Rightarrow> {||} | Some ps \<Rightarrow> ps)"

fun index_hashtags :: "string \<Rightarrow> string list \<Rightarrow> (string \<times> string fset) list
    \<Rightarrow> (string \<times> string fset) list" where
  "index_hashtags pid [] idx = idx"
| "index_hashtags pid (t # ts) idx =
     index_hashtags pid ts (AList.update t (finsert pid (tag_set idx t)) idx)"

definition create_post :: "string \<Rightarrow> string \<Rightarrow> PostCreate \<Rightarrow> storage \<Rightarrow> PostOut result" where
  "create_post pid now payload s =
     (if map_of (users s) (pc_user_id payload) = None
      then (s, Inl (HTTPException 404 ''User not found''))
      else
        let hashtags = map lower (HASHTAG_RE_findall (pc_caption payload));
            pst = \<lparr>p_id = pid, p_user_id = pc_user_id payload,
                   p_media_url = pc_media_url payload, p_media_type = pc_media_type payload,
                   p_caption = pc_caption payload, p_hashtags = hashtags,
                   p_created_at = now\<rparr>;
            s1 = s\<lparr>posts := AList.update pid pst (posts s)\<rparr>;
            s2 = s1\<lparr>likes := setdefault (likes s1) pid {||}\<rparr>;
            s3 = s2\<lparr>post_comments := setdefault (post_comments s2) pid []\<rparr>;
            s4 = s3\<lparr>hashtag_posts := index_hashtags pid hashtags (hashtag_posts s3)\<rparr>
        in (s4, Inr (build_post_out s4 pst)))"

definition get_post :: "string \<Rightarrow> storage \<Rightarrow> PostOut result" where
  "get_post post_id s =
     (case map_of (posts s) post_id of
        None \<Rightarrow> (s, Inl (HTTPException 404 ''Post not found''))
      | Some pst \<Rightarrow> (s, Inr (build_post_out s pst)))"

definition get_user_posts :: "string \<Rightarrow> storage \<Rightarrow> PostOut list result" where
  "get_user_posts user_id s =
     (if map_of (users s) user_id = None
      then (s, Inl (HTTPException 404 ''User not found''))
      else
        let user_posts = filter (\<lambda>p. p_user_id p = user_id) (map snd (posts s))
        in (s, Inr (map (build_post_out s) (sort_reverse p_created_at user_posts))))"

text \<open>
  The first loop of \<open>delete_post\<close>: a tag whose set is missing or empty is skipped, any
  other set loses \<open>post_id\<close> in place. The second loop pops every listed comment.
\<close>

fun deindex_hashtags :: "string \<Rightarrow> string list \<Rightarrow> (string \<times> string fset) list
    \<Rightarrow> (string \<times> string fset) list" where
  "deindex_hashtags pid [] idx = idx"
| "deindex_hashtags pid (t # ts) idx =
     deindex_hashtags pid ts
       (case map_of idx t of
          None \<Rightarrow> idx
        | Some ps \<Rightarrow> if ps = {||} then idx else AList.update t (ps |-| {|pid|}) idx)"

fun pop_comments :: "string list \<Rightarrow> (string \<rightharpoonup> comment) \<Rightarrow> (string \<rightharpoonup> comment)" where
  "pop_comments [] m = m"
| "pop_comments (cid # cids) m = pop_comments cids (m(cid := None))"

definition delete_post :: "string \<Rightarrow> storage \<Rightarrow> string result" where
  "delete_post post_id s =
     (case map_of (posts s) post_id of
        None \<Rightarrow> (s, Inl (HTTPException 404 ''Post not found''))
      | Some pst \<Rightarrow>
          let s1 = s\<lparr>hashtag_posts :=
                      deindex_hashtags post_id (p_hashtags pst) (hashtag_posts s)\<rparr>;
              comment_ids = get_or (post_comments s1) post_id [];
              s2 = s1\<lparr>post_comments := (post_comments s1)(post_id := None)\<rparr>;
              s3 = s2\<lparr>comments := pop_comments comment_ids (comments s2)\<rparr>;
              s4 = s3\<lparr>likes := (likes s3)(post_id := None)\<rparr>;
              s5 = s4\<lparr>posts := AList.delete post_id (posts s4)\<rparr>
          in (s5, Inr ''Post deleted''))"

section \<open>Follows\<close>

text \<open>
  \<open>follow_user\<close> calls \<open>setdefault\<close> before the duplicate check, so the storage it leaves
  behind on a 409 is the one after \<open>setdefault\<close>. The set it adds to is the one stored
  in the dict.
\<close>

definition follow_user :: "string \<Rightarrow> string \<Rightarrow> storage \<Rightarrow> string result" where
  "follow_user user_id target_id s =
     (if user_id = target_id
      then (s, Inl (HTTPException 400 ''Cannot follow yourself''))
      else if map_of (users s) user_id = None
      then (s, Inl (HTTPException 404 ''User not found''))
      else if map_of (users s) target_id = None
      then (s, Inl (HTTPException 404 ''Target user not found''))
      else
        let s1 = s\<lparr>follows := setdefault (follows s) user_id {||}\<rparr>;
            following_set = get_or (follows s1) user_id {||}
        in if target_id |\<in>| following_set
           then (s1, Inl (HTTPException 409 ''Already following this user''))
           else
             let s2 = s1\<lparr>follows := (follows s1)(user_id \<mapsto> finsert target_id following_set)\<rparr>;
                 s3 = s2\<lparr>followers := setdefault (followers s2) target_id {||}\<rparr>;
                 s4 = s3\<lparr>followers := (followers s3)
                        (target_id \<mapsto> finsert user_id (get_or (followers s3) target_id {||}))\<rparr>
             in (s4, Inr ''Followed successfully''))"

text \<open>
  \<open>unfollow_user\<close> reads with \<open>get(user_id, set())\<close>: a missing key gives a fresh empty
  set, which never contains the target. \<open>store.followers.get(target_id, set()).discard\<close>
  on a missing key changes a temporary set only.
\<close>

definition unfollow_user :: "string \<Rightarrow> string \<Rightarrow> storage \<Rightarrow> string result" where
  "unfollow_user user_id target_id s =
     (if map_of (users s) user_id = None
      then (s, Inl (HTTPException 404 ''User not found''))
      else if map_of (users s) target_id = None
      then (s, Inl (HTTPException 404 ''Target user not found''))
      else
        let following_set = get_or (follows s) user_id {||}
        in if target_id |\<notin>| following_set
           then (s, Inl (HTTPException 404 ''Not following this user''))
           else
             let s1 = s\<lparr>follows := (follows s)(user_id \<mapsto> following_set |-| {|target_id|})\<rparr>;
                 s2 = (case followers s1 target_id of
                         None \<Rightarrow> s1
                       | Some fs \<Rightarrow>
                           s1\<lparr>followers := (followers s1)(target_id \<mapsto> fs |-| {|user_id|})\<rparr>)
             in (s2, Inr ''Unfollowed successfully''))"

section \<open>Likes\<close>

definition like_post :: "string \<Rightarrow> LikeAction \<Rightarrow> storage \<Rightarrow> string result" where
  "like_post post_id payload s =
     (if map_of (posts s) post_id = None
      then (s, Inl (HTTPException 404 ''Post not found''))
      else if map_of (users s) (la_user_id payload) = None
      then (s, Inl (HTTPException 404 ''User not found''))
      else
        let s1 = s\<lparr>likes := setdefault (likes s) post_id {||}\<rparr>;
            liked_by = get_or (likes s1) post_id {||}
        in if la_user_id payload |\<in>| liked_by
           then (s1, Inl (HTTPException 409 ''Post already liked by this user''))
           else (s1\<lparr>likes := (likes s1)(post_id \<mapsto> finsert (la_user_id payload) liked_by)\<rparr>,
                 Inr ''Post liked''))"

definition unlike_post :: "string \<Rightarrow> string \<Rightarrow> storage \<Rightarrow> string result" where
  "unlike_post post_id user_id s =
     (if map_of (posts s) post_id = None
      then (s, Inl (HTTPException 404 ''Post not found''))
      else
        let liked_by = get_or (likes s) post_id {||}
        in if user_id |\<notin>| liked_by
           then (s, Inl (HTTPException 404 ''Like not found''))
           else (s\<lparr>likes := (likes s)(post_id \<mapsto> liked_by |-| {|user_id|})\<rparr>,
                 Inr ''Post unliked''))"

section \<open>Comments\<close>

text \<open>
  The validator of \<open>CommentCreate\<close> rejects a text for which \<open>v.strip()\<close> is empty, that
  is a text of whitespace only; the request then ends with status 422 before the handler
  runs. Below 256 the whitespace characters of \<open>str.strip\<close> are the codes 9 to 13, 28 to
  32, 133 and 160.
\<close>

definition is_space :: "char \<Rightarrow> bool" where
  "is_space c =
     (let n = (of_char c :: nat)
      in (9 \<le> n \<and> n \<le> 13) \<or> (28 \<le> n \<and> n \<le> 32) \<or> n = 133 \<or> n = 160)"

definition text_must_not_be_blank :: "string \<Rightarrow> http_error + string" where
  "text_must_not_be_blank v =
     (if list_all is_space v then Inl (HTTPException 422 ''Comment text must not be blank'')
      else Inr v)"

definition build_comment_out :: "comment \<Rightarrow> CommentOut" where
  "build_comment_out cm =
     \<lparr>co_id = c_id cm, co_user_id = c_user_id cm, co_post_id = c_post_id cm,
      co_text = c_text cm, co_created_at = c_created_at cm\<rparr>"

definition add_comment :: "string \<Rightarrow> string \<Rightarrow> string \<Rightarrow> CommentCreate \<Rightarrow> storage
    \<Rightarrow> CommentOut result" where
  "add_comment cid now post_id payload s =
     (if map_of (posts s) post_id = None
      then (s, Inl (HTTPException 404 ''Post not found''))
      else if map_of (users s) (cc_user_id payload) = None
      then (s, Inl (HTTPException 404 ''User not found''))
      else
        let cm = \<lparr>c_id = cid, c_user_id = cc_user_id payload, c_post_id = post_id,
                  c_text = cc_text payload, c_created_at = now\<rparr>;
            s1 = s\<lparr>comments := (comments s)(cid \<mapsto> cm)\<rparr>;
            s2 = s1\<lparr>post_comments := setdefault (post_comments s1) post_id []\<rparr>;
            s3 = s2\<lparr>post_comments := (post_comments s2)
                   (post_id \<mapsto> get_or (post_comments s2) post_id [] @ [cid])\<rparr>
        in (s3, Inr (build_comment_out cm)))"

definition get_comments :: "string \<Rightarrow> storage \<Rightarrow> CommentOut list result" where
  "get_comments post_id s =
     (if map_of (posts s) post_id = None
      then (s, Inl (HTTPException 404 ''Post not found''))
      else
        let comment_ids = get_or (post_comments s) post_id []
        in (s, Inr (map build_comment_out (List.map_filter (comments s) comment_ids))))"

text \<open>\<open>comment_list.remove(comment_id)\<close> removes the first occurrence.\<close>

definition delete_comment :: "string \<Rightarrow> storage \<Rightarrow> string result" where
  "delete_comment comment_id s =
     (case comments s comment_id of
        None \<Rightarrow> (s, Inl (HTTPException 404 ''Comment not found''))
      | Some cm \<Rightarrow>
          let post_id = c_post_id cm;
              s1 = (case post_comments s post_id of
                      None \<Rightarrow> s
                    | Some comment_list \<Rightarrow>
                        if comment_id \<in> set comment_list
                        then s\<lparr>post_comments := (post_comments s)
                               (post_id \<mapsto> remove1 comment_id comment_list)\<rparr>
                        else s);
              s2 = s1\<lparr>comments := (comments s1)(comment_id := None)\<rparr>
          in (s2, Inr ''Comment deleted''))"

section \<open>Feed and explore\<close>

definition get_feed :: "string \<Rightarrow> storage \<Rightarrow> PostOut list result" where
  "get_feed user_id s =
     (if map_of (users s) user_id = None
      then (s, Inl (HTTPException 404 ''User not found''))
      else
        let following_ids = get_or (follows s) user_id {||}
        in if following_ids = {||} then (s, Inr [])
           else
             let feed_posts = filter (\<lambda>p. p_user_id p |\<in>| following_ids) (map snd (posts s))
             in (s, Inr (map (build_post_out s) (sort_reverse p_created_at feed_posts))))"

text \<open>The explore handlers never raise and never write; they are functions of the storage.\<close>

definition explore_recent :: "nat \<Rightarrow> storage \<Rightarrow> PostOut list" where
  "explore_recent limit s =
     map (build_post_out s) (take limit (sort_reverse p_created_at (map snd (posts s))))"

definition explore_trending :: "storage \<Rightarrow> HashtagCount list" where
  "explore_trending s =
     (let tag_counts =
            map (\<lambda>(t, post_ids). \<lparr>tag = t, count = fcard post_ids\<rparr>)
              (filter (\<lambda>(t, post_ids). post_ids \<noteq> {||}) (hashtag_posts s))
      in take 10 (sort_reverse count tag_counts))"

text \<open>
  \<open>explore_by_hashtag\<close> walks a Python set, whose order is not specified; the model walks
  it in ascending order. Only the order among posts with equal timestamps depends on it.
\<close>

definition explore_by_hashtag :: "string \<Rightarrow> storage \<Rightarrow> PostOut list" where
  "explore_by_hashtag tg s =
     (let normalized_tag = lower tg;
          post_ids = tag_set (hashtag_posts s) normalized_tag;
          tagged_posts = List.map_filter (map_of (posts s)) (sorted_list_of_fset post_ids)
      in map (build_post_out s) (sort_reverse p_created_at tagged_posts))"

section \<open>The public mutations as one type\<close>

text \<open>
  One constructor per mutating route, with the arguments of the request and, where the
  handler draws them, the identifier and the timestamp. \<open>exec\<close> runs the handler and keeps
  the storage and the error, if any. A comment request passes the validator first.
\<close>

datatype operation =
    CreateUser string string UserCreate
  | UpdateUser string UserUpdate
  | CreatePost string string PostCreate
  | DeletePost string
  | Follow string string
  | Unfollow string string
  | Like string string
  | Unlike string string
  | AddComment string string string string string
  | DeleteComment string

definition outcome :: "'a result \<Rightarrow> storage \<times> http_error option" where
  "outcome r = (fst r, case snd r of Inl e \<Rightarrow> Some e | Inr v \<Rightarrow> None)"

fun exec :: "operation \<Rightarrow> storage \<Rightarrow> storage \<times> http_error option" where
  "exec (CreateUser uid now payload) s = outcome (create_user uid now payload s)"
| "exec (UpdateUser user_id payload) s = outcome (update_user user_id payload s)"
| "exec (CreatePost pid now payload) s = outcome (create_post pid now payload s)"
| "exec (DeletePost post_id) s = outcome (delete_post post_id s)"
| "exec (Follow user_id target_id) s = outcome (follow_user user_id target_id s)"
| "exec (Unfollow user_id target_id) s = outcome (unfollow_user user_id target_id s)"
| "exec (Like post_id user_id) s = outcome (like_post post_id \<lparr>la_user_id = user_id\<rparr> s)"
| "exec (Unlike post_id user_id) s = outcome (unlike_post post_id user_id s)"
| "exec (AddComment cid now post_id user_id body) s =
     (case text_must_not_be_blank body of
        Inl e \<Rightarrow> (s, Some e)
      | Inr v \<Rightarrow> outcome (add_comment cid now post_id \<lparr>cc_user_id = user_id, cc_text = v\<rparr> s))"
| "exec (DeleteComment comment_id) s = outcome (delete_comment comment_id s)"

text \<open>The identifier an operation draws from \<open>uuid4\<close>, if it draws one.\<close>

fun drawn :: "operation \<Rightarrow> string list" where
  "drawn (CreateUser uid now payload) = [uid]"
| "drawn (CreatePost pid now payload) = [pid]"
| "drawn (AddComment cid now post_id user_id body) = [cid]"
| "drawn operation = []"

text \<open>
  The states the service can be in: from the empty storage, by any sequence of public
  mutations in which every drawn identifier is new. The list records the identifiers
  drawn so far, oldest first.
\<close>

inductive reachable :: "string list \<Rightarrow> storage \<Rightarrow> bool" where
  init: "reachable [] reset_storage"
| step: "reachable ids s \<Longrightarrow> set (drawn operation) \<inter> set ids = {}
         \<Longrightarrow> reachable (ids @ drawn operation) (fst (exec operation s))"

text \<open>Running a sequence of operations, in order.\<close>

fun run :: "operation list \<Rightarrow> storage \<Rightarrow> storage" where
  "run [] s = s"
| "run (operation # rest) s = run rest (fst (exec operation s))"

section \<open>A small scenario\<close>

text \<open>
  Two users, a follow edge, three posts, a like and three comments; the concrete inputs
  at which the theorems below are instantiated.
\<close>

definition alice :: UserCreate where
  "alice = \<lparr>uc_username = ''alice'', uc_display_name = ''Alice'', uc_bio = [],
            uc_profile_pic_url = []\<rparr>"

definition bob :: UserCreate where
  "bob = \<lparr>uc_username = ''bob'', uc_display_name = ''Bob'', uc_bio = ''hi'',
          uc_profile_pic_url = []\<rparr>"

definition demo_ops :: "operation list" where
  "demo_ops =
     [CreateUser ''u1'' ''t1'' alice,
      CreateUser ''u2'' ''t2'' bob,
      Follow ''u1'' ''u2'',
      CreatePost ''p1'' ''t3''
        \<lparr>pc_user_id = ''u2'', pc_media_url = ''m1'', pc_media_type = Image,
         pc_caption = ''Hello #world #World''\<rparr>,
      CreatePost ''p2'' ''t4''
        \<lparr>pc_user_id = ''u1'', pc_media_url = ''m2'', pc_media_type = Video,
         pc_caption = ''mine #sun''\<rparr>,
      CreatePost ''p3'' ''t5''
        \<lparr>pc_user_id = ''u2'', pc_media_url = ''m3'', pc_media_type = Image,
         pc_caption = ''again #world''\<rparr>,
      Like ''p1'' ''u1'',
      AddComment ''c1'' ''t6'' ''p1'' ''u1'' ''first'',
      AddComment ''c2'' ''t7'' ''p1'' ''u2'' ''second'',
      AddComment ''c3'' ''t8'' ''p3'' ''u1'' ''third'']"

definition demo :: storage where
  "demo = run demo_ops reset_storage"

section \<open>Invariants of the follow indexes\<close>

text \<open>
  The two follow dicts describe the same edges, and nobody follows themself. Both are read
  through \<open>get(uid, set())\<close>, as every handler reads them.
\<close>

definition follow_symmetric :: "storage \<Rightarrow> bool" where
  "follow_symmetric s = (\<forall>a b. b |\<in>| following_of s a \<longleftrightarrow> a |\<in>| followers_of s b)"

definition no_self_follow :: "storage \<Rightarrow> bool" where
  "no_self_follow s = (\<forall>a. a |\<notin>| following_of s a)"

section \<open>Drawn identifiers cover the stores\<close>

text \<open>
  Every key of \<open>users\<close>, \<open>posts\<close> and \<open>comments\<close> was drawn from \<open>uuid4\<close>, and no identifier
  was drawn twice: a newly drawn identifier is therefore the key of nothing.
\<close>

definition ids_cover :: "string list \<Rightarrow> storage \<Rightarrow> bool" where
  "ids_cover ids s =
     (distinct ids \<and> fst ` set (users s) \<subseteq> set ids \<and> fst ` set (posts s) \<subseteq> set ids
      \<and> dom (comments s) \<subseteq> set ids)"

text \<open>The fields \<open>update_user\<close> may write, taken from the payload where it gives them.\<close>

definition updated_user :: "UserUpdate \<Rightarrow> user \<Rightarrow> user" where
  "updated_user payload usr =
     usr\<lparr>u_display_name :=
           (case uu_display_name payload of None \<Rightarrow> u_display_name usr | Some v \<Rightarrow> v),
         u_bio := (case uu_bio payload of None \<Rightarrow> u_bio usr | Some v \<Rightarrow> v),
         u_profile_pic_url :=
           (case uu_profile_pic_url payload of None \<Rightarrow> u_profile_pic_url usr | Some v \<Rightarrow> v)\<rparr>"

text \<open>Inputs of the scenario for \<open>update_user\<close>.\<close>

definition demo_alice :: user where
  "demo_alice =
     \<lparr>u_id = ''u1'', u_username = ''alice'', u_display_name = ''Alice'', u_bio = [],
      u_profile_pic_url = [], u_created_at = ''t1''\<rparr>"

definition rename :: UserUpdate where
  "rename = \<lparr>uu_display_name = Some ''Al'', uu_bio = None, uu_profile_pic_url = None\<rparr>"

definition demo_ids :: "string list" where
  "demo_ids = [''u1'', ''u2'', ''p1'', ''p2'', ''p3'', ''c1'', ''c2'', ''c3'']"

definition later_ops :: "operation list" where
  "later_ops =
     [UpdateUser ''u1'' rename,
      CreateUser ''u3'' ''t9''
        \<lparr>uc_username = ''carol'', uc_display_name = ''Carol'', uc_bio = [],
         uc_profile_pic_url = []\<rparr>,
      Unfollow ''u1'' ''u2'']"

section \<open>Like edges\<close>

text \<open>The users who like a post, read through \<open>get(post_id, set())\<close> as the handlers do.\<close>

definition liked_by :: "storage \<Rightarrow> string \<Rightarrow> string fset" where
  "liked_by s post_id = get_or (likes s) post_id {||}"

text \<open>Operations run between a first and a second follow, and between two likes.\<close>

definition between_follows :: "operation list" where
  "between_follows = [Like ''p2'' ''u2'', Unfollow ''u1'' ''u2'', DeletePost ''p1'']"

definition between_likes :: "operation list" where
  "between_likes = [Unlike ''p1'' ''u1'', Follow ''u2'' ''u1'', DeletePost ''p3'']"

section \<open>Trending, step by step\<close>

text \<open>
  The three stages of \<open>explore_trending\<close> before the slice \<open>[:10]\<close>: the items of the
  hashtag dict with a non-empty set, their \<open>HashtagCount\<close> records, and the sorted list.
\<close>

definition tag_count :: "string \<times> string fset \<Rightarrow> HashtagCount" where
  "tag_count = (\<lambda>(t, post_ids). \<lparr>tag = t, count = fcard post_ids\<rparr>)"

definition used_tags :: "storage \<Rightarrow> (string \<times> string fset) list" where
  "used_tags s = filter (\<lambda>(t, post_ids). post_ids \<noteq> {||}) (hashtag_posts s)"

definition ranking :: "storage \<Rightarrow> HashtagCount list" where
  "ranking s = sort_reverse count (map tag_count (used_tags s))"

text \<open>The scenario after deleting the only post tagged \<open>sun\<close>.\<close>

definition demo_less :: storage where
  "demo_less = fst (delete_post ''p2'' demo)"

section \<open>The posts of a feed\<close>

text \<open>The posts \<open>get_feed\<close> selects and sorts, before they are turned into responses.\<close>

definition feed_posts :: "storage \<Rightarrow> string \<Rightarrow> post list" where
  "feed_posts s user_id =
     sort_reverse p_created_at
       (filter (\<lambda>p. p_user_id p |\<in>| following_of s user_id) (map snd (posts s)))"

section \<open>Invariant of the hashtag index\<close>

text \<open>
  A post identifier is in the set of a tag exactly when the post exists and its hashtag
  list holds the tag; the keys of both dicts are distinct.
\<close>

definition tags_consistent :: "storage \<Rightarrow> bool" where
  "tags_consistent s =
     (distinct (map fst (hashtag_posts s)) \<and> distinct (map fst (posts s)) \<and>
      (\<forall>t p. p |\<in>| tag_set (hashtag_posts s) t \<longleftrightarrow>
         (\<exists>pst. map_of (posts s) p = Some pst \<and> t \<in> set (p_hashtags pst))))"

text \<open>Inputs of the scenario for hashtags: a storage with one user and no post.\<close>

definition author_only :: storage where
  "author_only = run [CreateUser ''u1'' ''t1'' alice] reset_storage"

definition python_post :: PostCreate where
  "python_post =
     \<lparr>pc_user_id = ''u1'', pc_media_url = ''m1'', pc_media_type = Image,
      pc_caption = ''#Python #PYTHON #python''\<rparr>"


text \<open>Two strings that differ at most in the case of their letters.\<close>

definition same_up_to_case :: "string \<Rightarrow> string \<Rightarrow> bool" where
  "same_up_to_case w w' =
     list_all2
       (\<lambda>a b. a = b \<or> (is_upper a \<and> (of_char b :: nat) = of_char a + 32)
               \<or> (is_upper b \<and> (of_char a :: nat) = of_char b + 32))
       w w'"

text \<open>A caption with a capital and a small Latin-1 letter (code points 201 and 233).\<close>

definition latin1_caption :: string where
  "latin1_caption = [CHR ''#'', CHR 0xC9, CHR '' '', CHR ''#'', CHR 0xE9, CHR ''!'']"


section \<open>Invariant of the comment sequences\<close>

text \<open>
  The parent post of a stored comment, and the invariant: the sequence kept for a post
  (read through \<open>get(post_id, [])\<close>) is the list of drawn identifiers, in the order they
  were drawn, restricted to the stored comments whose parent is that post; and a comment
  is stored under its own identifier.
\<close>

definition parent :: "storage \<Rightarrow> string \<Rightarrow> string option" where
  "parent s cid = map_option c_post_id (comments s cid)"

definition comment_ids :: "storage \<Rightarrow> string \<Rightarrow> string list" where
  "comment_ids s post_id = get_or (post_comments s) post_id []"

definition comments_consistent :: "string list \<Rightarrow> storage \<Rightarrow> bool" where
  "comments_consistent ids s =
     ((\<forall>p. comment_ids s p = filter (\<lambda>c. parent s c = Some p) ids) \<and>
      (\<forall>c cm. comments s c = Some cm \<longrightarrow> c_id cm = c))"

text \<open>A further comment on the first post of the scenario.\<close>

definition demo_reply :: CommentCreate where
  "demo_reply = \<lparr>cc_user_id = ''u2'', cc_text = ''fourth''\<rparr>"

section \<open>Failure leaves the storage unchanged\<close>

lemma outcome_Some: "outcome r = (s', Some e) \<longleftrightarrow> fst r = s' \<and> snd r = Inl e"
  by (cases r) (auto simp: outcome_def split: sum.splits)

lemma outcome_None: "outcome r = (s', None) \<longleftrightarrow> fst r = s' \<and> (\<exists>v. snd r = Inr v)"
  by (cases r) (auto simp: outcome_def split: sum.splits)

lemma fst_outcome [simp]: "fst (outcome r) = fst r"
  by (simp add: outcome_def)

lemma create_user_failed:
  "snd (create_user uid now payload s) = Inl e \<Longrightarrow> fst (create_user uid now payload s) = s"
  by (simp add: create_user_def Let_def split: if_splits)

lemma update_user_failed:
  "snd (update_user user_id payload s) = Inl e \<Longrightarrow> fst (update_user user_id payload s) = s"
  by (simp add: update_user_def Let_def split: option.splits)

lemma create_post_failed:
  "snd (create_post pid now payload s) = Inl e \<Longrightarrow> fst (create_post pid now payload s) = s"
  by (simp add: create_post_def Let_def split: if_splits)

lemma delete_post_failed:
  "snd (delete_post post_id s) = Inl e \<Longrightarrow> fst (delete_post post_id s) = s"
  by (simp add: delete_post_def Let_def split: option.splits)

text \<open>
  \<open>follow_user\<close> and \<open>like_post\<close> raise 409 after \<open>setdefault\<close>: the key was then already
  present (a set just inserted is empty and holds nobody), so \<open>setdefault\<close> wrote nothing.
\<close>

lemma follow_user_failed:
  "snd (follow_user user_id target_id s) = Inl e
   \<Longrightarrow> fst (follow_user user_id target_id s) = s"
  by (auto simp: follow_user_def Let_def setdefault_def get_or_def
      split: if_splits option.splits)

lemma unfollow_user_failed:
  "snd (unfollow_user user_id target_id s) = Inl e
   \<Longrightarrow> fst (unfollow_user user_id target_id s) = s"
  by (auto simp: unfollow_user_def Let_def split: if_splits option.splits)

lemma like_post_failed:
  "snd (like_post post_id payload s) = Inl e \<Longrightarrow> fst (like_post post_id payload s) = s"
  by (auto simp: like_post_def Let_def setdefault_def get_or_def
      split: if_splits option.splits)

lemma unlike_post_failed:
  "snd (unlike_post post_id user_id s) = Inl e \<Longrightarrow> fst (unlike_post post_id user_id s) = s"
  by (auto simp: unlike_post_def Let_def split: if_splits option.splits)

lemma add_comment_failed:
  "snd (add_comment cid now post_id payload s) = Inl e
   \<Longrightarrow> fst (add_comment cid now post_id payload s) = s"
  by (auto simp: add_comment_def Let_def split: if_splits option.splits)

lemma delete_comment_failed:
  "snd (delete_comment comment_id s) = Inl e \<Longrightarrow> fst (delete_comment comment_id s) = s"
  by (auto simp: delete_comment_def Let_def split: if_splits option.splits)

lemma exec_failed: "exec operation s = (s', Some e) \<Longrightarrow> s' = s"
proof (cases operation)
  case (AddComment cid now post_id user_id body)
  assume "exec operation s = (s', Some e)"
  with AddComment show ?thesis
    by (auto simp: outcome_Some split: sum.splits dest: add_comment_failed)
qed (auto simp: outcome_Some dest: create_user_failed update_user_failed create_post_failed
      delete_post_failed follow_user_failed unfollow_user_failed like_post_failed
      unlike_post_failed delete_comment_failed)

text \<open>
  Claim C3. Whenever a public mutation (create user, update user, create post, delete
  post, follow, unfollow, like, unlike, add comment, delete comment) ends with an error,
  the storage it leaves behind equals the storage it started from, field for field. The
  storage is the one the handler really leaves: writes made before a raise are kept by
  the model, so the statement says that no handler writes before it raises.
\<close>

theorem failure_leaves_storage_unchanged:
  "exec operation s = (s', Some e) \<Longrightarrow> s' = s"
  by (rule exec_failed)

theorem failure_leaves_storage_unchanged_witness:
  "snd (exec (Follow ''u1'' ''u2'') demo) = Some (HTTPException 409 ''Already following this user'')
   \<and> fst (exec (Follow ''u1'' ''u2'') demo) = demo"
proof -
  have h: "snd (exec (Follow ''u1'' ''u2'') demo)
      = Some (HTTPException 409 ''Already following this user'')"
    by code_simp
  then have "exec (Follow ''u1'' ''u2'') demo
      = (fst (exec (Follow ''u1'' ''u2'') demo),
         Some (HTTPException 409 ''Already following this user''))"
    by (simp add: prod_eq_iff)
  from failure_leaves_storage_unchanged [OF this] h show ?thesis by simp
qed

section \<open>The follow indexes stay symmetric\<close>

lemma get_or_setdefault [simp]: "get_or (setdefault m k d) k' d = get_or m k' d"
  by (simp add: get_or_def setdefault_def split: option.splits)

lemma get_or_upd [simp]: "get_or (m(k \<mapsto> v)) k' d = (if k' = k then v else get_or m k' d)"
  by (simp add: get_or_def)

lemma get_or_None [simp]: "m k = None \<Longrightarrow> get_or m k d = d"
  by (simp add: get_or_def)

lemma get_or_Some [simp]: "m k = Some v \<Longrightarrow> get_or m k d = v"
  by (simp add: get_or_def)

lemma create_user_follows:
  "following_of (fst (create_user uid now payload s)) = following_of s"
  "followers_of (fst (create_user uid now payload s)) = followers_of s"
  by (auto simp: create_user_def Let_def following_of_def followers_of_def fun_eq_iff)

lemma update_user_frame:
  "posts (fst (update_user user_id payload s)) = posts s"
  "follows (fst (update_user user_id payload s)) = follows s"
  "followers (fst (update_user user_id payload s)) = followers s"
  "likes (fst (update_user user_id payload s)) = likes s"
  "comments (fst (update_user user_id payload s)) = comments s"
  "post_comments (fst (update_user user_id payload s)) = post_comments s"
  "hashtag_posts (fst (update_user user_id payload s)) = hashtag_posts s"
  by (simp_all add: update_user_def Let_def split: option.splits)

lemma create_post_frame:
  "users (fst (create_post pid now payload s)) = users s"
  "follows (fst (create_post pid now payload s)) = follows s"
  "followers (fst (create_post pid now payload s)) = followers s"
  "comments (fst (create_post pid now payload s)) = comments s"
  by (simp_all add: create_post_def Let_def)

lemma delete_post_frame:
  "users (fst (delete_post post_id s)) = users s"
  "follows (fst (delete_post post_id s)) = follows s"
  "followers (fst (delete_post post_id s)) = followers s"
  by (simp_all add: delete_post_def Let_def split: option.splits)

lemma follow_user_frame:
  "users (fst (follow_user a b s)) = users s"
  "posts (fst (follow_user a b s)) = posts s"
  "likes (fst (follow_user a b s)) = likes s"
  "comments (fst (follow_user a b s)) = comments s"
  "post_comments (fst (follow_user a b s)) = post_comments s"
  "hashtag_posts (fst (follow_user a b s)) = hashtag_posts s"
  by (simp_all add: follow_user_def Let_def)

lemma unfollow_user_frame:
  "users (fst (unfollow_user a b s)) = users s"
  "posts (fst (unfollow_user a b s)) = posts s"
  "likes (fst (unfollow_user a b s)) = likes s"
  "comments (fst (unfollow_user a b s)) = comments s"
  "post_comments (fst (unfollow_user a b s)) = post_comments s"
  "hashtag_posts (fst (unfollow_user a b s)) = hashtag_posts s"
  by (simp_all add: unfollow_user_def Let_def split: option.splits)

lemma like_post_frame:
  "users (fst (like_post post_id payload s)) = users s"
  "posts (fst (like_post post_id payload s)) = posts s"
  "follows (fst (like_post post_id payload s)) = follows s"
  "followers (fst (like_post post_id payload s)) = followers s"
  "comments (fst (like_post post_id payload s)) = comments s"
  "post_comments (fst (like_post post_id payload s)) = post_comments s"
  "hashtag_posts (fst (like_post post_id payload s)) = hashtag_posts s"
  by (simp_all add: like_post_def Let_def)

lemma unlike_post_frame:
  "users (fst (unlike_post post_id user_id s)) = users s"
  "posts (fst (unlike_post post_id user_id s)) = posts s"
  "follows (fst (unlike_post post_id user_id s)) = follows s"
  "followers (fst (unlike_post post_id user_id s)) = followers s"
  "comments (fst (unlike_post post_id user_id s)) = comments s"
  "post_comments (fst (unlike_post post_id user_id s)) = post_comments s"
  "hashtag_posts (fst (unlike_post post_id user_id s)) = hashtag_posts s"
  by (simp_all add: unlike_post_def Let_def)

lemma add_comment_frame:
  "users (fst (add_comment cid now post_id payload s)) = users s"
  "posts (fst (add_comment cid now post_id payload s)) = posts s"
  "follows (fst (add_comment cid now post_id payload s)) = follows s"
  "followers (fst (add_comment cid now post_id payload s)) = followers s"
  "likes (fst (add_comment cid now post_id payload s)) = likes s"
  "hashtag_posts (fst (add_comment cid now post_id payload s)) = hashtag_posts s"
  by (simp_all add: add_comment_def Let_def)

lemma delete_comment_frame:
  "users (fst (delete_comment comment_id s)) = users s"
  "posts (fst (delete_comment comment_id s)) = posts s"
  "follows (fst (delete_comment comment_id s)) = follows s"
  "followers (fst (delete_comment comment_id s)) = followers s"
  "likes (fst (delete_comment comment_id s)) = likes s"
  "hashtag_posts (fst (delete_comment comment_id s)) = hashtag_posts s"
  by (simp_all add: delete_comment_def Let_def split: option.splits)

lemmas frame = update_user_frame create_post_frame delete_post_frame follow_user_frame
  unfollow_user_frame like_post_frame unlike_post_frame add_comment_frame delete_comment_frame

lemma follow_user_follows:
  "following_of (fst (follow_user a b s)) =
     (if snd (follow_user a b s) = Inr ''Followed successfully''
      then (following_of s)(a := finsert b (following_of s a)) else following_of s)"
  "followers_of (fst (follow_user a b s)) =
     (if snd (follow_user a b s) = Inr ''Followed successfully''
      then (followers_of s)(b := finsert a (followers_of s b)) else followers_of s)"
  by (auto simp: follow_user_def Let_def following_of_def followers_of_def fun_eq_iff)

lemma follow_user_ok: "snd (follow_user a b s) = Inr r \<Longrightarrow> a \<noteq> b \<and> r = ''Followed successfully''"
  by (auto simp: follow_user_def Let_def split: if_splits)

lemma unfollow_user_follows:
  "following_of (fst (unfollow_user a b s)) =
     (if snd (unfollow_user a b s) = Inr ''Unfollowed successfully''
      then (following_of s)(a := following_of s a |-| {|b|}) else following_of s)"
  "followers_of (fst (unfollow_user a b s)) =
     (if snd (unfollow_user a b s) = Inr ''Unfollowed successfully''
      then (followers_of s)(b := followers_of s b |-| {|a|}) else followers_of s)"
  by (auto simp: unfollow_user_def Let_def following_of_def followers_of_def fun_eq_iff get_or_def
      split: option.splits)

lemma unfollow_user_ok: "snd (unfollow_user a b s) = Inr r \<Longrightarrow> r = ''Unfollowed successfully''"
  by (auto simp: unfollow_user_def Let_def split: if_splits)

lemma exec_follows:
  "following_of (fst (exec operation s)) =
     (case operation of
        Follow a b \<Rightarrow> following_of (fst (follow_user a b s))
      | Unfollow a b \<Rightarrow> following_of (fst (unfollow_user a b s))
      | _ \<Rightarrow> following_of s)"
  "followers_of (fst (exec operation s)) =
     (case operation of
        Follow a b \<Rightarrow> followers_of (fst (follow_user a b s))
      | Unfollow a b \<Rightarrow> followers_of (fst (unfollow_user a b s))
      | _ \<Rightarrow> followers_of s)"
proof -
  show "following_of (fst (exec operation s)) =
     (case operation of
        Follow a b \<Rightarrow> following_of (fst (follow_user a b s))
      | Unfollow a b \<Rightarrow> following_of (fst (unfollow_user a b s))
      | _ \<Rightarrow> following_of s)"
  proof (cases operation)
    case (CreateUser uid now payload)
    then show ?thesis by (simp add: create_user_follows)
  qed (simp_all add: following_of_def fun_eq_iff frame split: sum.splits)
  show "followers_of (fst (exec operation s)) =
     (case operation of
        Follow a b \<Rightarrow> followers_of (fst (follow_user a b s))
      | Unfollow a b \<Rightarrow> followers_of (fst (unfollow_user a b s))
      | _ \<Rightarrow> followers_of s)"
  proof (cases operation)
    case (CreateUser uid now payload)
    then show ?thesis by (simp add: create_user_follows)
  qed (simp_all add: followers_of_def fun_eq_iff frame split: sum.splits)
qed

lemma exec_follow_symmetric:
  assumes "follow_symmetric s"
  shows "follow_symmetric (fst (exec operation s))"
  unfolding follow_symmetric_def exec_follows
  using assms
  by (cases operation)
    (simp_all add: follow_symmetric_def follow_user_follows unfollow_user_follows)

lemma reachable_follow_symmetric: "reachable ids s \<Longrightarrow> follow_symmetric s"
proof (induction rule: reachable.induct)
  case init
  show ?case
    by (simp add: follow_symmetric_def following_of_def followers_of_def reset_storage_def
        get_or_def)
next
  case (step ids s operation)
  then show ?case by (simp add: exec_follow_symmetric)
qed

lemma exec_no_self_follow:
  assumes "no_self_follow s"
  shows "no_self_follow (fst (exec operation s))"
  unfolding no_self_follow_def exec_follows
  using assms
  by (cases operation)
    (auto simp: no_self_follow_def follow_user_follows unfollow_user_follows
      dest: follow_user_ok)

lemma reachable_no_self_follow: "reachable ids s \<Longrightarrow> no_self_follow s"
proof (induction rule: reachable.induct)
  case init
  show ?case
    by (simp add: no_self_follow_def following_of_def reset_storage_def get_or_def)
next
  case (step ids s operation)
  then show ?case by (simp add: exec_no_self_follow)
qed

lemma reachable_run:
  "reachable ids s \<Longrightarrow> distinct (ids @ concat (map drawn ops))
   \<Longrightarrow> reachable (ids @ concat (map drawn ops)) (run ops s)"
proof (induction ops arbitrary: ids s)
  case Nil
  then show ?case by simp
next
  case (Cons operation ops)
  from Cons.prems have "set (drawn operation) \<inter> set ids = {}" by auto
  with Cons.prems have "reachable (ids @ drawn operation) (fst (exec operation s))"
    by (auto intro: reachable.step)
  from Cons.IH [OF this] Cons.prems show ?case by simp
qed

lemma demo_reachable:
  "reachable [''u1'', ''u2'', ''p1'', ''p2'', ''p3'', ''c1'', ''c2'', ''c3''] demo"
proof -
  have "reachable ([] @ concat (map drawn demo_ops)) (run demo_ops reset_storage)"
    by (rule reachable_run [OF reachable.init]) (simp add: demo_ops_def)
  then show ?thesis by (simp add: demo_ops_def demo_def)
qed

text \<open>
  Claim C1. In every state reachable by the public operations, for all users \<open>a\<close> and
  \<open>b\<close>: \<open>b\<close> is in the following set of \<open>a\<close> exactly when \<open>a\<close> is in the followers set of
  \<open>b\<close>; after a successful \<open>follow_user a b\<close> both memberships hold; after a successful
  \<open>unfollow_user a b\<close> neither holds.
\<close>

theorem follow_index_symmetry:
  assumes "reachable ids s"
  shows "(b |\<in>| following_of s a \<longleftrightarrow> a |\<in>| followers_of s b)
    \<and> (follow_user a b s = (s', Inr r) \<longrightarrow>
         b |\<in>| following_of s' a \<and> a |\<in>| followers_of s' b)
    \<and> (unfollow_user a b s = (s'', Inr r') \<longrightarrow>
         b |\<notin>| following_of s'' a \<and> a |\<notin>| followers_of s'' b)"
proof (intro conjI impI)
  from reachable_follow_symmetric [OF assms]
  show "b |\<in>| following_of s a \<longleftrightarrow> a |\<in>| followers_of s b"
    by (simp add: follow_symmetric_def)
next
  assume h: "follow_user a b s = (s', Inr r)"
  then have "snd (follow_user a b s) = Inr r" "fst (follow_user a b s) = s'" by simp_all
  with follow_user_ok [of a b s r] follow_user_follows [of a b s]
  show "b |\<in>| following_of s' a" "a |\<in>| followers_of s' b" by auto
next
  assume h: "unfollow_user a b s = (s'', Inr r')"
  then have "snd (unfollow_user a b s) = Inr r'" "fst (unfollow_user a b s) = s''" by simp_all
  with unfollow_user_ok [of a b s r'] unfollow_user_follows [of a b s]
  show "b |\<notin>| following_of s'' a" "a |\<notin>| followers_of s'' b" by auto
qed

theorem follow_index_symmetry_witness:
  "reachable [''u1'', ''u2'', ''p1'', ''p2'', ''p3'', ''c1'', ''c2'', ''c3''] demo
   \<and> ''u2'' |\<in>| following_of demo ''u1'' \<and> ''u1'' |\<in>| followers_of demo ''u2''
   \<and> snd (unfollow_user ''u1'' ''u2'' demo) = Inr ''Unfollowed successfully''
   \<and> ''u2'' |\<notin>| following_of (fst (unfollow_user ''u1'' ''u2'' demo)) ''u1''
   \<and> ''u1'' |\<notin>| followers_of (fst (unfollow_user ''u1'' ''u2'' demo)) ''u2''"
proof -
  have f: "''u2'' |\<in>| following_of demo ''u1''" by code_simp
  have u: "snd (unfollow_user ''u1'' ''u2'' demo) = Inr ''Unfollowed successfully''"
    by code_simp
  then have "unfollow_user ''u1'' ''u2'' demo
     = (fst (unfollow_user ''u1'' ''u2'' demo), Inr ''Unfollowed successfully'')"
    by (simp add: prod_eq_iff)
  with follow_index_symmetry [OF demo_reachable, of "''u2''" "''u1''" demo "[]"
      "fst (unfollow_user ''u1'' ''u2'' demo)" "''Unfollowed successfully''"]
    f u demo_reachable
  show ?thesis by simp
qed

section \<open>Fresh identifiers\<close>

lemma map_of_eq_None_keys: "map_of al k = None \<longleftrightarrow> k \<notin> fst ` set al"
  by (simp add: map_of_eq_None_iff)

lemma pop_comments_eq: "pop_comments cids m = (\<lambda>c. if c \<in> set cids then None else m c)"
  by (induction cids arbitrary: m) (auto simp: fun_eq_iff)

lemma create_user_keys:
  "fst ` set (users (fst (create_user uid now payload s))) \<subseteq> insert uid (fst ` set (users s))"
  "posts (fst (create_user uid now payload s)) = posts s"
  "comments (fst (create_user uid now payload s)) = comments s"
  "likes (fst (create_user uid now payload s)) = likes s"
  "post_comments (fst (create_user uid now payload s)) = post_comments s"
  "hashtag_posts (fst (create_user uid now payload s)) = hashtag_posts s"
  by (auto simp: create_user_def Let_def AList.dom_update)

lemma update_user_keys:
  "fst ` set (users (fst (update_user user_id payload s))) = fst ` set (users s)"
proof (cases "map_of (users s) user_id")
  case None
  then show ?thesis by (simp add: update_user_def)
next
  case (Some usr)
  then have "user_id \<in> fst ` set (users s)"
    by (metis map_of_eq_None_iff option.distinct(1))
  with Some show ?thesis
    by (auto simp: update_user_def Let_def AList.dom_update)
qed

lemma create_post_keys:
  "fst ` set (posts (fst (create_post pid now payload s))) \<subseteq> insert pid (fst ` set (posts s))"
  by (auto simp: create_post_def Let_def AList.dom_update)

lemma delete_post_keys:
  "fst ` set (posts (fst (delete_post post_id s))) \<subseteq> fst ` set (posts s)"
  "dom (comments (fst (delete_post post_id s))) \<subseteq> dom (comments s)"
  using AList.dom_delete_subset [of post_id "posts s"]
  by (auto simp: delete_post_def Let_def pop_comments_eq split: option.splits if_splits)

lemma add_comment_keys:
  "dom (comments (fst (add_comment cid now post_id payload s))) \<subseteq> insert cid (dom (comments s))"
  by (auto simp: add_comment_def Let_def)

lemma delete_comment_keys:
  "dom (comments (fst (delete_comment comment_id s))) \<subseteq> dom (comments s)"
  by (auto simp: delete_comment_def Let_def split: option.splits if_splits)

lemma cover_step: "A \<subseteq> insert x B \<Longrightarrow> B \<subseteq> set ids \<Longrightarrow> A \<subseteq> set (ids @ [x])"
  by auto

lemma cover_keep: "A \<subseteq> B \<Longrightarrow> B \<subseteq> set ids \<Longrightarrow> A \<subseteq> set ids"
  by auto

lemma cover_more: "A \<subseteq> set ids \<Longrightarrow> A \<subseteq> set (ids @ new)"
  by auto

lemma exec_ids_cover:
  assumes "ids_cover ids s" and "set (drawn operation) \<inter> set ids = {}"
  shows "ids_cover (ids @ drawn operation) (fst (exec operation s))"
proof -
  from assms(1) have d: "distinct ids" and u: "fst ` set (users s) \<subseteq> set ids"
    and p: "fst ` set (posts s) \<subseteq> set ids" and c: "dom (comments s) \<subseteq> set ids"
    by (simp_all add: ids_cover_def)
  show ?thesis
  proof (cases operation)
    case (CreateUser uid now payload)
    from assms(2) CreateUser have "uid \<notin> set ids" by simp
    with d p c cover_step [OF create_user_keys(1) u, of uid now payload] CreateUser
    show ?thesis
      by (simp add: ids_cover_def create_user_keys subset_insertI2)
  next
    case (UpdateUser user_id payload)
    with d u p c show ?thesis by (simp add: ids_cover_def update_user_keys frame)
  next
    case (CreatePost pid now payload)
    from assms(2) CreatePost have "pid \<notin> set ids" by simp
    with d u c cover_step [OF create_post_keys p, of pid now payload] CreatePost
    show ?thesis
      by (simp add: ids_cover_def frame subset_insertI2)
  next
    case (DeletePost post_id)
    with d u cover_keep [OF delete_post_keys(1) p, of post_id]
      cover_keep [OF delete_post_keys(2) c, of post_id]
    show ?thesis
      by (simp add: ids_cover_def frame)
  next
    case (AddComment cid now post_id user_id body)
    from assms(2) AddComment have fresh: "cid \<notin> set ids" by simp
    show ?thesis
    proof (cases "text_must_not_be_blank body")
      case (Inl e)
      with AddComment fresh d u p c show ?thesis by (simp add: ids_cover_def subset_insertI2)
    next
      case (Inr v)
      with AddComment fresh d u p
        cover_step [OF add_comment_keys c, of cid now post_id "\<lparr>cc_user_id = user_id, cc_text = v\<rparr>"]
      show ?thesis
        by (simp add: ids_cover_def frame subset_insertI2)
    qed
  next
    case (DeleteComment comment_id)
    with d u p cover_keep [OF delete_comment_keys c, of comment_id]
    show ?thesis
      by (simp add: ids_cover_def frame)
  qed (use d u p c in \<open>simp_all add: ids_cover_def frame\<close>)
qed

lemma reachable_ids_cover: "reachable ids s \<Longrightarrow> ids_cover ids s"
proof (induction rule: reachable.induct)
  case init
  show ?case by (simp add: ids_cover_def reset_storage_def)
next
  case (step ids s operation)
  then show ?case by (simp add: exec_ids_cover)
qed

section \<open>Updating a user\<close>

lemma update_user_result:
  assumes "map_of (users s) user_id = Some usr"
  shows "update_user user_id payload s =
    (s\<lparr>users := AList.update user_id (updated_user payload usr) (users s)\<rparr>,
     Inr (build_user_out (s\<lparr>users := AList.update user_id (updated_user payload usr) (users s)\<rparr>)
       (updated_user payload usr)))"
  using assms
  by (cases "uu_display_name payload"; cases "uu_bio payload"; cases "uu_profile_pic_url payload")
    (simp_all add: update_user_def updated_user_def Let_def)

lemma update_user_missing:
  "map_of (users s) user_id = None
   \<Longrightarrow> update_user user_id payload s = (s, Inl (HTTPException 404 ''User not found''))"
  by (simp add: update_user_def)

lemma create_user_users:
  "users (fst (create_user uid now payload s)) = users s \<or>
   (\<exists>usr. users (fst (create_user uid now payload s)) = AList.update uid usr (users s))"
  by (auto simp: create_user_def Let_def)

lemma exec_user_identity:
  assumes "map_of (users s) uid = Some usr" and "uid \<notin> set (drawn operation)"
  shows "\<exists>usr'. map_of (users (fst (exec operation s))) uid = Some usr'
    \<and> u_id usr' = u_id usr \<and> u_username usr' = u_username usr
    \<and> u_created_at usr' = u_created_at usr"
proof (cases operation)
  case (CreateUser uid' now payload)
  with assms(2) have "uid' \<noteq> uid" by simp
  with CreateUser assms(1) create_user_users [of uid' now payload s] show ?thesis
    by (auto simp: AList.update_conv')
next
  case (UpdateUser user_id payload)
  show ?thesis
  proof (cases "map_of (users s) user_id")
    case None
    with UpdateUser assms(1) show ?thesis by (simp add: update_user_missing)
  next
    case (Some u)
    with UpdateUser assms(1) show ?thesis
      by (auto simp: update_user_result AList.update_conv' updated_user_def)
  qed
qed (use assms in \<open>simp_all add: frame split: sum.splits\<close>)

lemma reachable_user_known:
  assumes "reachable ids s" and "map_of (users s) uid = Some usr"
  shows "uid \<in> set ids"
proof -
  from assms(2) have "uid \<in> fst ` set (users s)"
    by (metis map_of_eq_None_iff option.distinct(1))
  with reachable_ids_cover [OF assms(1)] show ?thesis
    by (auto simp: ids_cover_def)
qed

lemma run_user_identity:
  assumes "reachable ids s" and "distinct (ids @ concat (map drawn ops))"
    and "map_of (users s) uid = Some usr"
  shows "\<exists>usr'. map_of (users (run ops s)) uid = Some usr'
    \<and> u_id usr' = u_id usr \<and> u_username usr' = u_username usr
    \<and> u_created_at usr' = u_created_at usr"
  using assms
proof (induction ops arbitrary: ids s usr)
  case Nil
  then show ?case by simp
next
  case (Cons operation ops)
  from Cons.prems have fresh: "set (drawn operation) \<inter> set ids = {}" by auto
  from reachable_user_known [OF Cons.prems(1,3)] fresh
  have "uid \<notin> set (drawn operation)" by auto
  from exec_user_identity [OF Cons.prems(3) this]
  obtain usr1 where u1: "map_of (users (fst (exec operation s))) uid = Some usr1"
    and same: "u_id usr1 = u_id usr" "u_username usr1 = u_username usr"
      "u_created_at usr1 = u_created_at usr"
    by blast
  from Cons.prems(1) fresh
  have r: "reachable (ids @ drawn operation) (fst (exec operation s))"
    by (rule reachable.step)
  from Cons.prems(2) have d: "distinct ((ids @ drawn operation) @ concat (map drawn ops))"
    by simp
  from Cons.IH [OF r d u1] same show ?case by simp
qed

text \<open>
  Claim C7. For an existing user, \<open>update_user\<close> succeeds and stores the old record with
  exactly the fields given in the payload (display name, bio, picture) overwritten; a
  field the payload leaves out keeps its value, every other user, the order of the dict
  and every other store are untouched. For a missing user it raises 404 and leaves the
  storage as it was. The identifier, the username and the creation timestamp of an
  existing user survive every sequence of public operations that draw fresh identifiers.
\<close>

theorem partial_update_frame:
  "(map_of (users s) user_id = Some usr \<longrightarrow>
      (\<exists>s' out. update_user user_id payload s = (s', Inr out)
        \<and> map_of (users s') user_id = Some (updated_user payload usr)
        \<and> (\<forall>k. k \<noteq> user_id \<longrightarrow> map_of (users s') k = map_of (users s) k)
        \<and> map fst (users s') = map fst (users s)
        \<and> s'\<lparr>users := users s\<rparr> = s
        \<and> u_id (updated_user payload usr) = u_id usr
        \<and> u_username (updated_user payload usr) = u_username usr
        \<and> u_created_at (updated_user payload usr) = u_created_at usr
        \<and> u_display_name (updated_user payload usr) =
            (case uu_display_name payload of None \<Rightarrow> u_display_name usr | Some v \<Rightarrow> v)
        \<and> u_bio (updated_user payload usr) =
            (case uu_bio payload of None \<Rightarrow> u_bio usr | Some v \<Rightarrow> v)
        \<and> u_profile_pic_url (updated_user payload usr) =
            (case uu_profile_pic_url payload of
               None \<Rightarrow> u_profile_pic_url usr | Some v \<Rightarrow> v)))
   \<and> (map_of (users s) user_id = None \<longrightarrow>
        update_user user_id payload s = (s, Inl (HTTPException 404 ''User not found'')))
   \<and> (reachable ids s \<and> distinct (ids @ concat (map drawn ops))
        \<and> map_of (users s) user_id = Some usr \<longrightarrow>
        (\<exists>usr'. map_of (users (run ops s)) user_id = Some usr'
          \<and> u_id usr' = u_id usr \<and> u_username usr' = u_username usr
          \<and> u_created_at usr' = u_created_at usr))"
proof (intro conjI impI)
  assume h: "map_of (users s) user_id = Some usr"
  then have "user_id \<in> fst ` set (users s)"
    by (metis map_of_eq_None_iff option.distinct(1))
  then have keys: "map fst (AList.update user_id (updated_user payload usr) (users s))
      = map fst (users s)"
    by (simp add: AList.update_keys)
  show "\<exists>s' out. update_user user_id payload s = (s', Inr out)
        \<and> map_of (users s') user_id = Some (updated_user payload usr)
        \<and> (\<forall>k. k \<noteq> user_id \<longrightarrow> map_of (users s') k = map_of (users s) k)
        \<and> map fst (users s') = map fst (users s)
        \<and> s'\<lparr>users := users s\<rparr> = s
        \<and> u_id (updated_user payload usr) = u_id usr
        \<and> u_username (updated_user payload usr) = u_username usr
        \<and> u_created_at (updated_user payload usr) = u_created_at usr
        \<and> u_display_name (updated_user payload usr) =
            (case uu_display_name payload of None \<Rightarrow> u_display_name usr | Some v \<Rightarrow> v)
        \<and> u_bio (updated_user payload usr) =
            (case uu_bio payload of None \<Rightarrow> u_bio usr | Some v \<Rightarrow> v)
        \<and> u_profile_pic_url (updated_user payload usr) =
            (case uu_profile_pic_url payload of
               None \<Rightarrow> u_profile_pic_url usr | Some v \<Rightarrow> v)"
    unfolding update_user_result [OF h]
    using keys by (simp add: AList.update_conv' updated_user_def)
next
  assume "map_of (users s) user_id = None"
  then show "update_user user_id payload s = (s, Inl (HTTPException 404 ''User not found''))"
    by (rule update_user_missing)
next
  assume "reachable ids s \<and> distinct (ids @ concat (map drawn ops))
        \<and> map_of (users s) user_id = Some usr"
  then show "\<exists>usr'. map_of (users (run ops s)) user_id = Some usr'
          \<and> u_id usr' = u_id usr \<and> u_username usr' = u_username usr
          \<and> u_created_at usr' = u_created_at usr"
    using run_user_identity by blast
qed

lemma demo_reachable_ids: "reachable demo_ids demo"
  using demo_reachable by (simp add: demo_ids_def)

theorem partial_update_frame_witness:
  "map_of (users demo) ''u1'' = Some demo_alice
   \<and> map_of (users (fst (update_user ''u1'' rename demo))) ''u1''
       = Some (demo_alice\<lparr>u_display_name := ''Al''\<rparr>)
   \<and> map_of (users demo) ''u9'' = None
   \<and> update_user ''u9'' rename demo = (demo, Inl (HTTPException 404 ''User not found''))
   \<and> reachable demo_ids demo
   \<and> distinct (demo_ids @ concat (map drawn later_ops))
   \<and> map_option u_username (map_of (users (run later_ops demo)) ''u1'') = Some ''alice''"
proof -
  have a: "map_of (users demo) ''u1'' = Some demo_alice" by code_simp
  have n: "map_of (users demo) ''u9'' = None" by code_simp
  have d: "distinct (demo_ids @ concat (map drawn later_ops))" by code_simp
  have v: "updated_user rename demo_alice = demo_alice\<lparr>u_display_name := ''Al''\<rparr>"
    by (simp add: updated_user_def rename_def)
  from partial_update_frame [of demo "''u1''" demo_alice rename demo_ids later_ops]
    a demo_reachable_ids d
  have 1: "map_of (users (fst (update_user ''u1'' rename demo))) ''u1''
       = Some (updated_user rename demo_alice)"
    and 3: "map_option u_username (map_of (users (run later_ops demo)) ''u1'') = Some ''alice''"
    by (auto simp: demo_alice_def)
  from partial_update_frame [of demo "''u9''" demo_alice rename demo_ids later_ops] n
  have 2: "update_user ''u9'' rename demo = (demo, Inl (HTTPException 404 ''User not found''))"
    by simp
  from a n d 1 2 3 v demo_reachable_ids show ?thesis by simp
qed

section \<open>Duplicate and absent edges\<close>

lemma create_user_users_kept:
  "map_of (users s) u \<noteq> None \<Longrightarrow> map_of (users (fst (create_user uid now payload s))) u \<noteq> None"
  by (auto simp: create_user_def Let_def AList.update_conv')

lemma update_user_users_kept:
  "map_of (users s) u \<noteq> None \<Longrightarrow> map_of (users (fst (update_user user_id payload s))) u \<noteq> None"
  by (auto simp: update_user_def Let_def AList.update_conv' split: option.splits)

lemma exec_users_kept:
  "map_of (users s) u \<noteq> None \<Longrightarrow> map_of (users (fst (exec operation s))) u \<noteq> None"
  by (cases operation)
    (simp_all add: create_user_users_kept update_user_users_kept frame split: sum.splits)

lemma exec_following_kept:
  assumes "b |\<in>| following_of s a" and "operation \<noteq> Unfollow a b"
  shows "b |\<in>| following_of (fst (exec operation s)) a"
  using assms unfolding exec_follows
  by (cases operation) (auto simp: follow_user_follows unfollow_user_follows)

lemma run_following_kept:
  "b |\<in>| following_of s a \<Longrightarrow> Unfollow a b \<notin> set ops \<Longrightarrow> b |\<in>| following_of (run ops s) a"
  by (induction ops arbitrary: s) (auto simp: exec_following_kept)

lemma run_users_kept:
  "map_of (users s) u \<noteq> None \<Longrightarrow> map_of (users (run ops s)) u \<noteq> None"
proof (induction ops arbitrary: s)
  case Nil
  then show ?case by simp
next
  case (Cons operation ops)
  from Cons.IH [OF exec_users_kept [OF Cons.prems]] show ?case by simp
qed

lemma follow_user_conflict:
  assumes "b |\<in>| following_of s a" and "a \<noteq> b"
    and "map_of (users s) a \<noteq> None" and "map_of (users s) b \<noteq> None"
  shows "follow_user a b s = (s, Inl (HTTPException 409 ''Already following this user''))"
proof -
  from assms(1) obtain fs where "follows s a = Some fs"
    by (cases "follows s a") (auto simp: following_of_def)
  with assms show ?thesis
    by (auto simp: follow_user_def following_of_def Let_def setdefault_def)
qed

lemma follow_user_success:
  assumes "follow_user a b s = (s', Inr r)"
  shows "b |\<in>| following_of s' a" "a \<noteq> b" "map_of (users s') a \<noteq> None"
    "map_of (users s') b \<noteq> None"
proof -
  from assms have f: "snd (follow_user a b s) = Inr r" "fst (follow_user a b s) = s'" by simp_all
  from f follow_user_ok [of a b s r] follow_user_follows [of a b s]
  show "b |\<in>| following_of s' a" "a \<noteq> b" by auto
  from assms show "map_of (users s') a \<noteq> None" "map_of (users s') b \<noteq> None"
    by (auto simp: follow_user_def Let_def split: if_splits)
qed

lemma create_post_posts_kept:
  "map_of (posts s) p \<noteq> None \<Longrightarrow> map_of (posts (fst (create_post pid now payload s))) p \<noteq> None"
  by (auto simp: create_post_def Let_def AList.update_conv')

lemma delete_post_posts_kept:
  "map_of (posts s) p \<noteq> None \<Longrightarrow> p \<noteq> post_id
   \<Longrightarrow> map_of (posts (fst (delete_post post_id s))) p \<noteq> None"
  by (auto simp: delete_post_def Let_def AList.delete_conv' split: option.splits)

lemma exec_posts_kept:
  "map_of (posts s) p \<noteq> None \<Longrightarrow> operation \<noteq> DeletePost p
   \<Longrightarrow> map_of (posts (fst (exec operation s))) p \<noteq> None"
  by (cases operation)
    (auto simp: create_post_posts_kept delete_post_posts_kept frame create_user_keys
      split: sum.splits)

lemma like_post_liked_by:
  "liked_by (fst (like_post post_id payload s)) =
     (if snd (like_post post_id payload s) = Inr ''Post liked''
      then (liked_by s)(post_id := finsert (la_user_id payload) (liked_by s post_id))
      else liked_by s)"
  by (auto simp: like_post_def Let_def liked_by_def fun_eq_iff)

lemma unlike_post_liked_by:
  "liked_by (fst (unlike_post post_id user_id s)) =
     (if snd (unlike_post post_id user_id s) = Inr ''Post unliked''
      then (liked_by s)(post_id := liked_by s post_id |-| {|user_id|})
      else liked_by s)"
  by (auto simp: unlike_post_def Let_def liked_by_def fun_eq_iff)

lemma delete_post_liked_by:
  "p \<noteq> post_id \<Longrightarrow> liked_by (fst (delete_post post_id s)) p = liked_by s p"
  by (auto simp: delete_post_def Let_def liked_by_def get_or_def split: option.splits)

lemma create_post_liked_by:
  "liked_by (fst (create_post pid now payload s)) = liked_by s"
  by (auto simp: create_post_def Let_def liked_by_def fun_eq_iff)

lemma exec_liked_kept:
  assumes "u |\<in>| liked_by s p" and "operation \<noteq> Unlike p u" and "operation \<noteq> DeletePost p"
  shows "u |\<in>| liked_by (fst (exec operation s)) p"
proof (cases operation)
  case (CreatePost pid now payload)
  with assms show ?thesis by (simp add: create_post_liked_by)
next
  case (DeletePost post_id)
  with assms show ?thesis by (simp add: delete_post_liked_by)
next
  case (Like post_id user_id)
  with assms show ?thesis by (auto simp: like_post_liked_by)
next
  case (Unlike post_id user_id)
  with assms show ?thesis by (auto simp: unlike_post_liked_by)
qed (use assms in \<open>simp_all add: liked_by_def frame create_user_keys split: sum.splits\<close>)


lemma run_liked_kept:
  "u |\<in>| liked_by s p \<Longrightarrow> Unlike p u \<notin> set ops \<Longrightarrow> DeletePost p \<notin> set ops
   \<Longrightarrow> u |\<in>| liked_by (run ops s) p"
proof (induction ops arbitrary: s)
  case Nil
  then show ?case by simp
next
  case (Cons operation ops)
  from Cons.prems have "u |\<in>| liked_by (fst (exec operation s)) p"
    by (intro exec_liked_kept) auto
  from Cons.IH [OF this] Cons.prems show ?case by simp
qed

lemma run_posts_kept:
  "map_of (posts s) p \<noteq> None \<Longrightarrow> DeletePost p \<notin> set ops
   \<Longrightarrow> map_of (posts (run ops s)) p \<noteq> None"
proof (induction ops arbitrary: s)
  case Nil
  then show ?case by simp
next
  case (Cons operation ops)
  from Cons.prems have "map_of (posts (fst (exec operation s))) p \<noteq> None"
    by (intro exec_posts_kept) auto
  from Cons.IH [OF this] Cons.prems show ?case by simp
qed

lemma like_post_conflict:
  assumes "u |\<in>| liked_by s p" and "map_of (posts s) p \<noteq> None"
    and "map_of (users s) u \<noteq> None"
  shows "like_post p \<lparr>la_user_id = u\<rparr> s
    = (s, Inl (HTTPException 409 ''Post already liked by this user''))"
proof -
  from assms(1) obtain ls where "likes s p = Some ls"
    by (cases "likes s p") (auto simp: liked_by_def)
  with assms show ?thesis
    by (auto simp: like_post_def liked_by_def Let_def setdefault_def)
qed

lemma like_post_success:
  assumes "like_post p \<lparr>la_user_id = u\<rparr> s = (s', Inr r)"
  shows "u |\<in>| liked_by s' p" "map_of (posts s') p \<noteq> None" "map_of (users s') u \<noteq> None"
  using assms
  by (auto simp: like_post_def Let_def liked_by_def split: if_splits)

lemma unfollow_user_absent:
  assumes "b |\<notin>| following_of s a"
  shows "\<exists>d. unfollow_user a b s = (s, Inl (HTTPException 404 d))
    \<and> (map_of (users s) a \<noteq> None \<and> map_of (users s) b \<noteq> None
         \<longrightarrow> d = ''Not following this user'')"
  using assms by (auto simp: unfollow_user_def following_of_def Let_def)

lemma unlike_post_absent:
  assumes "u |\<notin>| liked_by s p"
  shows "\<exists>d. unlike_post p u s = (s, Inl (HTTPException 404 d))
    \<and> (map_of (posts s) p \<noteq> None \<longrightarrow> d = ''Like not found'')"
  using assms by (auto simp: unlike_post_def liked_by_def Let_def)

text \<open>
  Claim C8. After a successful \<open>follow_user a b\<close>, and any further public operations
  other than \<open>Unfollow a b\<close>, another \<open>follow_user a b\<close> raises 409; after a successful like
  of \<open>p\<close> by \<open>u\<close>, and any further operations other than \<open>Unlike p u\<close> and \<open>DeletePost p\<close>,
  another like raises 409. \<open>unfollow_user\<close> without the follow edge and \<open>unlike_post\<close>
  without the like edge raise 404, with the edge-level detail when the users (the post)
  exist. In each of these failures the storage returned is the storage given.
\<close>

theorem duplicate_and_absent_edges:
  "(follow_user a b s = (s1, Inr r) \<and> Unfollow a b \<notin> set ops \<longrightarrow>
      follow_user a b (run ops s1)
        = (run ops s1, Inl (HTTPException 409 ''Already following this user'')))
   \<and> (like_post p \<lparr>la_user_id = u\<rparr> s = (s2, Inr r')
        \<and> Unlike p u \<notin> set ops' \<and> DeletePost p \<notin> set ops' \<longrightarrow>
      like_post p \<lparr>la_user_id = u\<rparr> (run ops' s2)
        = (run ops' s2, Inl (HTTPException 409 ''Post already liked by this user'')))
   \<and> (b |\<notin>| following_of s a \<longrightarrow>
        (\<exists>d. unfollow_user a b s = (s, Inl (HTTPException 404 d))
          \<and> (map_of (users s) a \<noteq> None \<and> map_of (users s) b \<noteq> None
               \<longrightarrow> d = ''Not following this user'')))
   \<and> (u |\<notin>| liked_by s p \<longrightarrow>
        (\<exists>d. unlike_post p u s = (s, Inl (HTTPException 404 d))
          \<and> (map_of (posts s) p \<noteq> None \<longrightarrow> d = ''Like not found'')))"
proof (intro conjI impI)
  assume h: "follow_user a b s = (s1, Inr r) \<and> Unfollow a b \<notin> set ops"
  then have f: "follow_user a b s = (s1, Inr r)" and n: "Unfollow a b \<notin> set ops"
    by simp_all
  show "follow_user a b (run ops s1)
        = (run ops s1, Inl (HTTPException 409 ''Already following this user''))"
    by (intro follow_user_conflict run_following_kept run_users_kept
        follow_user_success [OF f] n)
next
  assume h: "like_post p \<lparr>la_user_id = u\<rparr> s = (s2, Inr r')
        \<and> Unlike p u \<notin> set ops' \<and> DeletePost p \<notin> set ops'"
  then have f: "like_post p \<lparr>la_user_id = u\<rparr> s = (s2, Inr r')"
    and n: "Unlike p u \<notin> set ops'" "DeletePost p \<notin> set ops'"
    by simp_all
  show "like_post p \<lparr>la_user_id = u\<rparr> (run ops' s2)
        = (run ops' s2, Inl (HTTPException 409 ''Post already liked by this user''))"
    by (intro like_post_conflict run_liked_kept run_users_kept run_posts_kept
        like_post_success [OF f] n)
next
  assume "b |\<notin>| following_of s a"
  then show "\<exists>d. unfollow_user a b s = (s, Inl (HTTPException 404 d))
          \<and> (map_of (users s) a \<noteq> None \<and> map_of (users s) b \<noteq> None
               \<longrightarrow> d = ''Not following this user'')"
    by (rule unfollow_user_absent)
next
  assume "u |\<notin>| liked_by s p"
  then show "\<exists>d. unlike_post p u s = (s, Inl (HTTPException 404 d))
          \<and> (map_of (posts s) p \<noteq> None \<longrightarrow> d = ''Like not found'')"
    by (rule unlike_post_absent)
qed

theorem duplicate_and_absent_edges_witness:
  "snd (follow_user ''u2'' ''u1'' demo) = Inr ''Followed successfully''
   \<and> Unfollow ''u2'' ''u1'' \<notin> set between_follows
   \<and> snd (follow_user ''u2'' ''u1'' (run between_follows (fst (follow_user ''u2'' ''u1'' demo))))
       = Inl (HTTPException 409 ''Already following this user'')
   \<and> snd (like_post ''p2'' \<lparr>la_user_id = ''u2''\<rparr> demo) = Inr ''Post liked''
   \<and> Unlike ''p2'' ''u2'' \<notin> set between_likes \<and> DeletePost ''p2'' \<notin> set between_likes
   \<and> snd (like_post ''p2'' \<lparr>la_user_id = ''u2''\<rparr>
         (run between_likes (fst (like_post ''p2'' \<lparr>la_user_id = ''u2''\<rparr> demo))))
       = Inl (HTTPException 409 ''Post already liked by this user'')
   \<and> ''u1'' |\<notin>| following_of demo ''u2''
   \<and> unfollow_user ''u2'' ''u1'' demo
       = (demo, Inl (HTTPException 404 ''Not following this user''))
   \<and> ''u2'' |\<notin>| liked_by demo ''p2''
   \<and> unlike_post ''p2'' ''u2'' demo = (demo, Inl (HTTPException 404 ''Like not found''))"
proof -
  have f: "snd (follow_user ''u2'' ''u1'' demo) = Inr ''Followed successfully''" by code_simp
  then have f': "follow_user ''u2'' ''u1'' demo
      = (fst (follow_user ''u2'' ''u1'' demo), Inr ''Followed successfully'')"
    by (simp add: prod_eq_iff)
  have l: "snd (like_post ''p2'' \<lparr>la_user_id = ''u2''\<rparr> demo) = Inr ''Post liked''"
    by code_simp
  then have l': "like_post ''p2'' \<lparr>la_user_id = ''u2''\<rparr> demo
      = (fst (like_post ''p2'' \<lparr>la_user_id = ''u2''\<rparr> demo), Inr ''Post liked'')"
    by (simp add: prod_eq_iff)
  have n1: "Unfollow ''u2'' ''u1'' \<notin> set between_follows" by (simp add: between_follows_def)
  have n2: "Unlike ''p2'' ''u2'' \<notin> set between_likes" "DeletePost ''p2'' \<notin> set between_likes"
    by (simp_all add: between_likes_def)
  have a1: "''u1'' |\<notin>| following_of demo ''u2''" by code_simp
  have a2: "''u2'' |\<notin>| liked_by demo ''p2''" by code_simp
  have e: "map_of (users demo) ''u2'' \<noteq> None" "map_of (users demo) ''u1'' \<noteq> None"
    "map_of (posts demo) ''p2'' \<noteq> None"
    by code_simp+
  from duplicate_and_absent_edges [of "''u2''" "''u1''" demo "fst (follow_user ''u2'' ''u1'' demo)"
      "''Followed successfully''" between_follows "''p2''" "''u2''"
      "fst (like_post ''p2'' \<lparr>la_user_id = ''u2''\<rparr> demo)" "''Post liked''" between_likes]
    f' l' n1 n2 a1 a2 e
  show ?thesis using f l by auto
qed

section \<open>Trending hashtags\<close>

lemma set_sort_reverse [simp]: "set (sort_reverse f xs) = set xs"
  by (simp add: sort_reverse_def)

lemma length_sort_reverse [simp]: "length (sort_reverse f xs) = length xs"
  by (simp add: sort_reverse_def)

lemma distinct_sort_reverse [simp]: "distinct (sort_reverse f xs) = distinct xs"
  by (simp add: sort_reverse_def)

lemma sorted_sort_reverse: "sorted (rev (map f (sort_reverse f xs)))"
  by (simp add: sort_reverse_def rev_map)

lemma distinct_map_sort_reverse:
  "distinct (map g xs) \<Longrightarrow> distinct (map g (sort_reverse f xs))"
  by (simp add: distinct_map)

lemma explore_trending_ranking: "explore_trending s = take 10 (ranking s)"
  by (simp add: explore_trending_def ranking_def used_tags_def tag_count_def)

lemma tag_tag_count: "tag \<circ> tag_count = fst"
  by (auto simp: tag_count_def fun_eq_iff)

lemma set_ranking:
  assumes "distinct (map fst (hashtag_posts s))"
  shows "set (ranking s) =
    {\<lparr>tag = t, count = fcard ps\<rparr> | t ps. map_of (hashtag_posts s) t = Some ps \<and> ps \<noteq> {||}}"
  using assms
  by (auto simp: ranking_def used_tags_def tag_count_def image_iff intro!: exI)

lemma distinct_ranking:
  assumes "distinct (map fst (hashtag_posts s))"
  shows "distinct (map tag (ranking s))"
proof -
  from assms have "distinct (map fst (used_tags s))"
    by (simp add: used_tags_def distinct_map_filter)
  then have "distinct (map tag (map tag_count (used_tags s)))"
    by (simp add: tag_tag_count)
  then show ?thesis
    unfolding ranking_def by (rule distinct_map_sort_reverse)
qed

lemma sorted_ranking: "sorted (rev (map count (ranking s)))"
  by (simp add: ranking_def sorted_sort_reverse)

lemma ranking_positive: "tc \<in> set (ranking s) \<Longrightarrow> 0 < count tc"
  by (auto simp: ranking_def used_tags_def tag_count_def fcard_fempty
      dest!: fcard_0_eq [THEN iffD1])

lemma ranking_entry:
  assumes "distinct (map fst (hashtag_posts s))" and "tc \<in> set (ranking s)"
  shows "\<exists>ps. map_of (hashtag_posts s) (tag tc) = Some ps \<and> ps \<noteq> {||}
    \<and> count tc = fcard ps"
proof -
  from assms(2) obtain t ps where "(t, ps) \<in> set (hashtag_posts s)" and "ps \<noteq> {||}"
    and "tc = \<lparr>tag = t, count = fcard ps\<rparr>"
    by (auto simp: ranking_def used_tags_def tag_count_def)
  with assms(1) show ?thesis by simp
qed

lemma ranking_no_empty:
  assumes "distinct (map fst (hashtag_posts s))" and "map_of (hashtag_posts s) t = Some {||}"
  shows "t \<notin> tag ` set (ranking s)"
proof
  assume "t \<in> tag ` set (ranking s)"
  then obtain tc where "tc \<in> set (ranking s)" and "tag tc = t" by auto
  with ranking_entry [OF assms(1), of tc] assms(2) show False by auto
qed

lemma set_take_subset_ranking: "set (explore_trending s) \<subseteq> set (ranking s)"
  by (simp add: explore_trending_ranking set_take_subset)

text \<open>
  Claim C4. In every state (the keys of the hashtag dict being distinct, as the keys of a
  dict are), \<open>explore_trending\<close> returns the first ten entries of a list that holds exactly
  one record (tag, size of its post set) for each tag whose post set is not empty, in
  descending order of count. No entry has count zero, and a tag whose set has become
  empty does not appear although its key is still stored.
\<close>

theorem trending_correct:
  assumes "distinct (map fst (hashtag_posts s))"
  shows "\<exists>full. explore_trending s = take 10 full
    \<and> set full = {\<lparr>tag = t, count = fcard ps\<rparr> | t ps.
          map_of (hashtag_posts s) t = Some ps \<and> ps \<noteq> {||}}
    \<and> distinct (map tag full)
    \<and> sorted (rev (map count full))
    \<and> length (explore_trending s) \<le> 10
    \<and> (\<forall>tc \<in> set (explore_trending s). 0 < count tc)
    \<and> (map_of (hashtag_posts s) t0 = Some {||} \<longrightarrow> t0 \<notin> tag ` set (explore_trending s))"
proof (intro exI [of _ "ranking s"] conjI impI ballI)
  show "explore_trending s = take 10 (ranking s)" by (rule explore_trending_ranking)
  show "set (ranking s) = {\<lparr>tag = t, count = fcard ps\<rparr> | t ps.
          map_of (hashtag_posts s) t = Some ps \<and> ps \<noteq> {||}}"
    by (rule set_ranking [OF assms])
  show "distinct (map tag (ranking s))" by (rule distinct_ranking [OF assms])
  show "sorted (rev (map count (ranking s)))" by (rule sorted_ranking)
  show "length (explore_trending s) \<le> 10" by (simp add: explore_trending_ranking)
next
  fix tc assume "tc \<in> set (explore_trending s)"
  with set_take_subset_ranking have "tc \<in> set (ranking s)" by blast
  then show "0 < count tc" by (rule ranking_positive)
next
  assume "map_of (hashtag_posts s) t0 = Some {||}"
  from ranking_no_empty [OF assms this] set_take_subset_ranking [of s]
  show "t0 \<notin> tag ` set (explore_trending s)" by blast
qed

theorem trending_correct_witness:
  "distinct (map fst (hashtag_posts demo_less))
   \<and> map_of (hashtag_posts demo_less) ''sun'' = Some {||}
   \<and> ''sun'' \<notin> tag ` set (explore_trending demo_less)
   \<and> explore_trending demo_less = [\<lparr>tag = ''world'', count = 2\<rparr>]
   \<and> explore_trending demo = [\<lparr>tag = ''world'', count = 2\<rparr>, \<lparr>tag = ''sun'', count = 1\<rparr>]"
proof -
  have d: "distinct (map fst (hashtag_posts demo_less))" by code_simp
  have e: "map_of (hashtag_posts demo_less) ''sun'' = Some {||}" by code_simp
  have v: "explore_trending demo_less = [\<lparr>tag = ''world'', count = 2\<rparr>]" by code_simp
  have w: "explore_trending demo
      = [\<lparr>tag = ''world'', count = 2\<rparr>, \<lparr>tag = ''sun'', count = 1\<rparr>]" by code_simp
  from trending_correct [OF d, of "''sun''"] e
  have "''sun'' \<notin> tag ` set (explore_trending demo_less)" by blast
  with d e v w show ?thesis by simp
qed

section \<open>The feed\<close>

lemma get_feed_missing:
  "map_of (users s) U = None
   \<Longrightarrow> get_feed U s = (s, Inl (HTTPException 404 ''User not found''))"
  by (simp add: get_feed_def)

lemma get_feed_existing:
  "map_of (users s) U \<noteq> None
   \<Longrightarrow> get_feed U s = (s, Inr (map (build_post_out s) (feed_posts s U)))"
  by (auto simp: get_feed_def feed_posts_def following_of_def Let_def sort_reverse_def)

lemma set_feed_posts:
  "set (feed_posts s U) = {p \<in> snd ` set (posts s). p_user_id p |\<in>| following_of s U}"
  by (auto simp: feed_posts_def)

lemma length_feed_posts:
  "length (feed_posts s U)
    = length (filter (\<lambda>p. p_user_id p |\<in>| following_of s U) (map snd (posts s)))"
  by (simp add: feed_posts_def)

lemma sorted_feed_posts: "sorted (rev (map p_created_at (feed_posts s U)))"
  by (simp add: feed_posts_def sorted_sort_reverse)

lemma feed_posts_empty: "following_of s U = {||} \<Longrightarrow> feed_posts s U = []"
  by (simp add: feed_posts_def sort_reverse_def)

lemma po_user_id_build [simp]: "po_user_id (build_post_out s p) = p_user_id p"
  by (simp add: build_post_out_def)

lemma feed_posts_not_own:
  assumes "reachable ids s"
  shows "U \<notin> po_user_id ` set (map (build_post_out s) (feed_posts s U))"
proof
  assume "U \<in> po_user_id ` set (map (build_post_out s) (feed_posts s U))"
  then obtain p where "p \<in> set (feed_posts s U)" and "p_user_id p = U" by auto
  then have "U |\<in>| following_of s U" by (auto simp: set_feed_posts)
  with reachable_no_self_follow [OF assms] show False by (simp add: no_self_follow_def)
qed

text \<open>
  Claim C6. For a user that does not exist \<open>get_feed\<close> raises 404. For an existing user
  it returns exactly the posts whose author is in the user's following set (each once),
  newest first by the stored timestamp, and the empty list, not an error, when the
  following set is empty. In every state the service can reach the result holds no post
  of the user, whatever the timestamps are: \<open>follow_user\<close> rejects a self-follow before
  it writes, so no user is ever in their own following set.
\<close>

theorem feed_content_reachable:
  "(map_of (users s) U = None \<longrightarrow>
      get_feed U s = (s, Inl (HTTPException 404 ''User not found'')))
   \<and> (map_of (users s) U \<noteq> None \<longrightarrow>
      (\<exists>ps. get_feed U s = (s, Inr (map (build_post_out s) ps))
        \<and> set ps = {p \<in> snd ` set (posts s). p_user_id p |\<in>| following_of s U}
        \<and> length ps
            = length (filter (\<lambda>p. p_user_id p |\<in>| following_of s U) (map snd (posts s)))
        \<and> sorted (rev (map p_created_at ps))
        \<and> (following_of s U = {||} \<longrightarrow> ps = [])
        \<and> (reachable ids s \<longrightarrow> U \<notin> po_user_id ` set (map (build_post_out s) ps))))"
proof (intro conjI impI)
  assume "map_of (users s) U = None"
  then show "get_feed U s = (s, Inl (HTTPException 404 ''User not found''))"
    by (rule get_feed_missing)
next
  assume "map_of (users s) U \<noteq> None"
  then have "get_feed U s = (s, Inr (map (build_post_out s) (feed_posts s U)))"
    by (rule get_feed_existing)
  then show "\<exists>ps. get_feed U s = (s, Inr (map (build_post_out s) ps))
        \<and> set ps = {p \<in> snd ` set (posts s). p_user_id p |\<in>| following_of s U}
        \<and> length ps
            = length (filter (\<lambda>p. p_user_id p |\<in>| following_of s U) (map snd (posts s)))
        \<and> sorted (rev (map p_created_at ps))
        \<and> (following_of s U = {||} \<longrightarrow> ps = [])
        \<and> (reachable ids s \<longrightarrow> U \<notin> po_user_id ` set (map (build_post_out s) ps))"
    using set_feed_posts [of s U] length_feed_posts [of s U] sorted_feed_posts [of s U]
      feed_posts_empty [of s U] feed_posts_not_own [of ids s U]
    by (intro exI [of _ "feed_posts s U"]) blast
qed

theorem feed_content_reachable_witness:
  "reachable demo_ids demo
   \<and> map_of (users demo) ''u1'' \<noteq> None
   \<and> map po_id (projr (snd (get_feed ''u1'' demo))) = [''p3'', ''p1'']
   \<and> ''u1'' \<notin> po_user_id ` set (projr (snd (get_feed ''u1'' demo)))
   \<and> map_of (users demo) ''u9'' = None
   \<and> get_feed ''u9'' demo = (demo, Inl (HTTPException 404 ''User not found''))"
proof -
  have e: "map_of (users demo) ''u1'' \<noteq> None" by code_simp
  have n: "map_of (users demo) ''u9'' = None" by code_simp
  have v: "map po_id (projr (snd (get_feed ''u1'' demo))) = [''p3'', ''p1'']" by code_simp
  from feed_content_reachable [of demo "''u1''" demo_ids] e demo_reachable_ids
  have "''u1'' \<notin> po_user_id ` set (projr (snd (get_feed ''u1'' demo)))" by auto
  moreover from feed_content_reachable [of demo "''u9''" demo_ids] n
  have "get_feed ''u9'' demo = (demo, Inl (HTTPException 404 ''User not found''))" by blast
  ultimately show ?thesis using e n v demo_reachable_ids by simp
qed

section \<open>The hashtag index\<close>

lemma tag_set_update:
  "tag_set (AList.update k v idx) t = (if t = k then v else tag_set idx t)"
  by (simp add: tag_set_def AList.update_conv')

lemma tag_set_index:
  "tag_set (index_hashtags pid ts idx) t
    = (if t \<in> set ts then finsert pid (tag_set idx t) else tag_set idx t)"
  by (induction ts arbitrary: idx) (auto simp: tag_set_update)

lemma tag_set_deindex:
  "tag_set (deindex_hashtags pid ts idx) t
    = (if t \<in> set ts then tag_set idx t |-| {|pid|} else tag_set idx t)"
proof (induction ts arbitrary: idx)
  case Nil
  show ?case by simp
next
  case (Cons a ts)
  show ?case
  proof (cases "map_of idx a")
    case None
    then have "tag_set idx a = {||}" by (simp add: tag_set_def)
    with None Cons show ?thesis by auto
  next
    case (Some ps)
    then have "tag_set idx a = ps" by (simp add: tag_set_def)
    with Some Cons show ?thesis by (auto simp: tag_set_update)
  qed
qed

lemma distinct_index:
  "distinct (map fst idx) \<Longrightarrow> distinct (map fst (index_hashtags pid ts idx))"
  by (induction ts arbitrary: idx) (simp_all add: AList.distinct_update)

lemma distinct_deindex:
  "distinct (map fst idx) \<Longrightarrow> distinct (map fst (deindex_hashtags pid ts idx))"
  by (induction ts arbitrary: idx) (simp_all add: AList.distinct_update split: option.splits)

lemma create_post_ok:
  assumes "map_of (users s) (pc_user_id payload) \<noteq> None"
  shows "posts (fst (create_post pid now payload s)) =
      AList.update pid
        \<lparr>p_id = pid, p_user_id = pc_user_id payload, p_media_url = pc_media_url payload,
         p_media_type = pc_media_type payload, p_caption = pc_caption payload,
         p_hashtags = map lower (HASHTAG_RE_findall (pc_caption payload)),
         p_created_at = now\<rparr> (posts s)"
    and "hashtag_posts (fst (create_post pid now payload s)) =
      index_hashtags pid (map lower (HASHTAG_RE_findall (pc_caption payload))) (hashtag_posts s)"
  using assms by (auto simp: create_post_def Let_def)

lemma create_post_tags_consistent:
  assumes "tags_consistent s" and "map_of (posts s) pid = None"
  shows "tags_consistent (fst (create_post pid now payload s))"
proof (cases "map_of (users s) (pc_user_id payload) = None")
  case True
  with assms(1) show ?thesis by (simp add: create_post_def)
next
  case False
  from assms(1) have d1: "distinct (map fst (hashtag_posts s))"
    and d2: "distinct (map fst (posts s))"
    and iff: "\<And>t p. p |\<in>| tag_set (hashtag_posts s) t \<longleftrightarrow>
         (\<exists>q. map_of (posts s) p = Some q \<and> t \<in> set (p_hashtags q))"
    by (simp_all add: tags_consistent_def)
  have "p |\<in>| tag_set (index_hashtags pid tags (hashtag_posts s)) t \<longleftrightarrow>
      (\<exists>q. map_of (AList.update pid pst (posts s)) p = Some q \<and> t \<in> set (p_hashtags q))"
    if "p_hashtags pst = tags" for t p tags pst
  proof (cases "p = pid")
    case True
    with that assms(2) iff [of pid t] show ?thesis
      by (simp add: tag_set_index AList.update_conv')
  next
    case False
    with iff [of p t] show ?thesis
      by (simp add: tag_set_index AList.update_conv')
  qed
  with d1 d2 show ?thesis
    unfolding tags_consistent_def create_post_ok [OF False]
    by (simp add: distinct_index AList.distinct_update)
qed

lemma delete_post_ok:
  assumes "map_of (posts s) post_id = Some pst"
  shows "posts (fst (delete_post post_id s)) = AList.delete post_id (posts s)"
    and "hashtag_posts (fst (delete_post post_id s)) =
      deindex_hashtags post_id (p_hashtags pst) (hashtag_posts s)"
    and "post_comments (fst (delete_post post_id s)) = (post_comments s)(post_id := None)"
    and "comments (fst (delete_post post_id s)) =
      pop_comments (get_or (post_comments s) post_id []) (comments s)"
    and "likes (fst (delete_post post_id s)) = (likes s)(post_id := None)"
    and "snd (delete_post post_id s) = Inr ''Post deleted''"
  using assms by (simp_all add: delete_post_def Let_def)

lemma delete_post_tags_consistent:
  assumes "tags_consistent s"
  shows "tags_consistent (fst (delete_post post_id s))"
proof (cases "map_of (posts s) post_id")
  case None
  with assms show ?thesis by (simp add: delete_post_def)
next
  case (Some pst)
  from assms have d1: "distinct (map fst (hashtag_posts s))"
    and d2: "distinct (map fst (posts s))"
    and iff: "\<And>t p. p |\<in>| tag_set (hashtag_posts s) t \<longleftrightarrow>
         (\<exists>q. map_of (posts s) p = Some q \<and> t \<in> set (p_hashtags q))"
    by (simp_all add: tags_consistent_def)
  have "p |\<in>| tag_set (deindex_hashtags post_id (p_hashtags pst) (hashtag_posts s)) t \<longleftrightarrow>
      (\<exists>q. map_of (AList.delete post_id (posts s)) p = Some q \<and> t \<in> set (p_hashtags q))"
    for t p
  proof (cases "p = post_id")
    case True
    with Some iff [of post_id t] show ?thesis
      by (simp add: tag_set_deindex AList.delete_conv')
  next
    case False
    with iff [of p t] show ?thesis
      by (simp add: tag_set_deindex AList.delete_conv')
  qed
  with d1 d2 show ?thesis
    unfolding tags_consistent_def delete_post_ok [OF Some]
    by (simp add: distinct_deindex AList.distinct_delete)
qed

lemma exec_tags_consistent:
  assumes "tags_consistent s" and "ids_cover ids s" and "set (drawn operation) \<inter> set ids = {}"
  shows "tags_consistent (fst (exec operation s))"
proof (cases operation)
  case (CreatePost pid now payload)
  with assms(3) have "pid \<notin> set ids" by simp
  with assms(2) have "pid \<notin> fst ` set (posts s)" by (auto simp: ids_cover_def)
  then have "map_of (posts s) pid = None" by (simp add: map_of_eq_None_iff)
  with CreatePost assms(1) show ?thesis by (simp add: create_post_tags_consistent)
next
  case (DeletePost post_id)
  with assms(1) show ?thesis by (simp add: delete_post_tags_consistent)
qed (use assms(1) in \<open>simp_all add: tags_consistent_def frame create_user_keys split: sum.splits\<close>)

lemma reachable_tags_consistent: "reachable ids s \<Longrightarrow> tags_consistent s"
proof (induction rule: reachable.induct)
  case init
  show ?case by (simp add: tags_consistent_def reset_storage_def tag_set_def)
next
  case (step ids s operation)
  from exec_tags_consistent [OF step.IH reachable_ids_cover [OF step.hyps(1)] step.hyps(2)]
  show ?case .
qed

section \<open>One index entry per post and tag\<close>

lemma upper_shift:
  assumes "is_upper c"
  shows "(of_char (char_of (of_char c + (32::nat)) :: char) :: nat) = of_char c + 32"
    and "\<not> is_upper (char_of (of_char c + (32::nat)))"
proof -
  from assms have "(of_char c :: nat) \<le> 222" by (auto simp: is_upper_def Let_def)
  then show 1: "(of_char (char_of (of_char c + (32::nat)) :: char) :: nat) = of_char c + 32"
    by simp
  from assms show "\<not> is_upper (char_of (of_char c + (32::nat)))"
    unfolding is_upper_def [of "char_of (of_char c + (32::nat))"] 1 Let_def
    by (auto simp: is_upper_def Let_def)
qed

lemma not_upper_lower_char: "\<not> is_upper (lower_char c)"
  by (simp add: lower_char_def upper_shift)

lemma lower_char_idem: "lower_char (lower_char c) = lower_char c"
  using not_upper_lower_char [of c] by (simp add: lower_char_def [of "lower_char c"])

lemma lower_idem: "lower (lower str) = lower str"
  by (simp add: lower_def lower_char_idem)


lemma lower_char_case:
  assumes "a = b \<or> (is_upper a \<and> (of_char b :: nat) = of_char a + 32)
               \<or> (is_upper b \<and> (of_char a :: nat) = of_char b + 32)"
  shows "lower_char a = lower_char b"
proof -
  have shift: "lower_char x = lower_char y"
    if "is_upper x" and "(of_char y :: nat) = of_char x + 32" for x y :: char
  proof -
    from that have "char_of (of_char x + (32::nat)) = y"
      by (metis char_of_char)
    with that(1) upper_shift(2) [OF that(1)] show ?thesis
      by (simp add: lower_char_def)
  qed
  from assms shift [of a b] shift [of b a] show ?thesis by auto
qed

lemma same_up_to_case_lower: "same_up_to_case w w' \<Longrightarrow> lower w = lower w'"
  unfolding same_up_to_case_def lower_def
  by (induction rule: list_all2_induct) (simp_all add: lower_char_case)


lemma create_post_result:
  assumes "map_of (users s) (pc_user_id payload) \<noteq> None"
  shows "snd (create_post pid now payload s) =
      Inr (build_post_out (fst (create_post pid now payload s))
        \<lparr>p_id = pid, p_user_id = pc_user_id payload, p_media_url = pc_media_url payload,
         p_media_type = pc_media_type payload, p_caption = pc_caption payload,
         p_hashtags = map lower (HASHTAG_RE_findall (pc_caption payload)),
         p_created_at = now\<rparr>)"
  using assms by (auto simp: create_post_def Let_def)


lemma reachable_create_post:
  assumes "reachable ids s" and "pid \<notin> set ids"
  shows "reachable (ids @ [pid]) (fst (create_post pid now payload s))"
  using reachable.step [OF assms(1), of "CreatePost pid now payload"] assms(2) by simp



lemma latin1_tags:
  "HASHTAG_RE_findall latin1_caption = [[CHR 0xC9], [CHR 0xE9]]"
  "map lower (HASHTAG_RE_findall latin1_caption) = [[CHR 0xE9], [CHR 0xE9]]"
  "same_up_to_case [CHR 0xC9] [CHR 0xE9]"
  by code_simp+



section \<open>Hashtag normalization\<close>

lemma distinct_singleton: "distinct xs \<Longrightarrow> set xs = {x} \<Longrightarrow> xs = [x]"
proof (cases xs)
  case Nil
  assume "set xs = {x}"
  with Nil show ?thesis by simp
next
  case (Cons y ys)
  assume d: "distinct xs" and s: "set xs = {x}"
  from s Cons have "y = x" by auto
  moreover from d s Cons \<open>y = x\<close> have "ys = []" by (cases ys) auto
  ultimately show ?thesis using Cons by simp
qed

lemma used_tags_single:
  assumes "distinct (map fst (hashtag_posts s))"
    and "\<And>t. tag_set (hashtag_posts s) t = (if t = k then v else {||})" and "v \<noteq> {||}"
  shows "used_tags s = [(k, v)]"
proof (rule distinct_singleton)
  from assms(1) have "distinct (map fst (used_tags s))"
    by (simp add: used_tags_def distinct_map_filter)
  then show "distinct (used_tags s)" by (simp add: distinct_map)
  show "set (used_tags s) = {(k, v)}"
  proof (intro set_eqI iffI)
    fix e assume "e \<in> set (used_tags s)"
    then obtain t ps where e: "e = (t, ps)" and m: "(t, ps) \<in> set (hashtag_posts s)"
      and ne: "ps \<noteq> {||}"
      by (auto simp: used_tags_def)
    from m assms(1) have "map_of (hashtag_posts s) t = Some ps" by simp
    then have "tag_set (hashtag_posts s) t = ps" by (simp add: tag_set_def)
    with assms(2) [of t] ne have "t = k \<and> ps = v" by (auto split: if_splits)
    with e show "e \<in> {(k, v)}" by simp
  next
    fix e assume "e \<in> {(k, v)}"
    then have e: "e = (k, v)" by simp
    from assms(2) [of k] assms(3) have "map_of (hashtag_posts s) k = Some v"
      by (cases "map_of (hashtag_posts s) k") (auto simp: tag_set_def)
    then have "(k, v) \<in> set (hashtag_posts s)" by (rule map_of_SomeD)
    with e assms(3) show "e \<in> set (used_tags s)" by (simp add: used_tags_def)
  qed
qed

lemma sorted_list_of_fset_single: "sorted_list_of_fset {|x|} = [x]"
  by (rule distinct_singleton) (simp_all add: sorted_list_of_fset.rep_eq)

lemma sort_reverse_single [simp]: "sort_reverse f [x] = [x]"
  by (simp add: sort_reverse_def)

lemma no_posts_no_tags:
  assumes "tags_consistent s" and "posts s = []"
  shows "tag_set (hashtag_posts s) t = {||}"
proof -
  from assms have "\<And>p. p |\<notin>| tag_set (hashtag_posts s) t"
    by (simp add: tags_consistent_def)
  then show ?thesis by auto
qed

lemma python_tokens:
  "map lower [''Python'', ''PYTHON'', ''python''] = [''python'', ''python'', ''python'']"
  by code_simp

text \<open>
  Claim C5, as amended. From a reachable state with an existing author and no post,
  creating a post (with a fresh identifier) whose caption has the hashtag matches
  \<open>Python\<close>, \<open>PYTHON\<close> and \<open>python\<close> stores the tag \<open>python\<close> three times in the post, and
  \<open>explore_trending\<close> is the single entry with tag \<open>python\<close> and count 1: the count is the
  number of posts, and there is one. \<open>explore_by_hashtag\<close> with any input that lowercases
  to \<open>python\<close>, in particular any casing of \<open>python\<close>, returns exactly that post.
\<close>

theorem hashtag_round_trip_once:
  assumes "reachable ids s" and "pid \<notin> set ids"
    and "map_of (users s) (pc_user_id payload) \<noteq> None" and "posts s = []"
    and "HASHTAG_RE_findall (pc_caption payload) = [''Python'', ''PYTHON'', ''python'']"
  shows "\<exists>s' out. create_post pid now payload s = (s', Inr out)
     \<and> po_id out = pid
     \<and> po_hashtags out = [''python'', ''python'', ''python'']
     \<and> explore_trending s' = [\<lparr>tag = ''python'', count = 1\<rparr>]
     \<and> (\<forall>tg. lower tg = ''python'' \<or> same_up_to_case ''python'' tg
           \<longrightarrow> explore_by_hashtag tg s' = [out])"
proof -
  let ?s' = "fst (create_post pid now payload s)"
  let ?tags = "[''python'', ''python'', ''python'']"
  let ?pst = "\<lparr>p_id = pid, p_user_id = pc_user_id payload, p_media_url = pc_media_url payload,
         p_media_type = pc_media_type payload, p_caption = pc_caption payload,
         p_hashtags = ?tags, p_created_at = now\<rparr>"
  let ?out = "build_post_out ?s' ?pst"
  have tags: "map lower (HASHTAG_RE_findall (pc_caption payload)) = ?tags"
    unfolding assms(5) by (rule python_tokens)
  have 1: "create_post pid now payload s = (?s', Inr ?out)"
    using create_post_result [OF assms(3), of pid now] by (simp add: prod_eq_iff tags)
  have 2: "po_id ?out = pid" "po_hashtags ?out = ?tags" by (simp_all add: build_post_out_def)
  have posts': "posts ?s' = [(pid, ?pst)]"
    by (simp add: create_post_ok [OF assms(3)] tags assms(4))
  have idx: "tag_set (hashtag_posts ?s') t = (if t = ''python'' then {|pid|} else {||})" for t
  proof -
    have "hashtag_posts ?s' = index_hashtags pid ?tags (hashtag_posts s)"
      by (simp only: create_post_ok(2) [OF assms(3)] tags)
    then have "tag_set (hashtag_posts ?s') t
        = (if t \<in> set ?tags then finsert pid (tag_set (hashtag_posts s) t)
           else tag_set (hashtag_posts s) t)"
      by (simp only: tag_set_index)
    then show ?thesis
      by (simp add: no_posts_no_tags [OF reachable_tags_consistent [OF assms(1)] assms(4)])
  qed
  from reachable_tags_consistent [OF reachable_create_post [OF assms(1,2)]]
  have d: "distinct (map fst (hashtag_posts ?s'))" by (simp add: tags_consistent_def)
  have "used_tags ?s' = [(''python'', {|pid|})]"
    by (rule used_tags_single [OF d idx]) simp
  then have 3: "explore_trending ?s' = [\<lparr>tag = ''python'', count = 1\<rparr>]"
    by (simp add: explore_trending_ranking ranking_def tag_count_def fcard_finsert_disjoint)
  have low: "lower ''python'' = ''python''" by code_simp
  have 4: "\<forall>tg. lower tg = ''python'' \<or> same_up_to_case ''python'' tg
      \<longrightarrow> explore_by_hashtag tg ?s' = [?out]"
  proof (intro allI impI)
    fix tg assume "lower tg = ''python'' \<or> same_up_to_case ''python'' tg"
    with same_up_to_case_lower [of "''python''" tg] low have "lower tg = ''python''" by auto
    with idx [of "''python''"] show "explore_by_hashtag tg ?s' = [?out]"
      by (simp add: explore_by_hashtag_def Let_def posts' List.map_filter_simps
          sorted_list_of_fset_single)
  qed
  from 1 2 3 4 show ?thesis by blast
qed

text \<open>
  The claim as stated gives the trending entry the count 3. With one author, no post, and
  one new post whose caption is \<open>#Python #PYTHON #python\<close>, the entry has count 1.
\<close>

theorem hashtag_round_trip_counterexample:
  "map_of (users author_only) (pc_user_id python_post) \<noteq> None
   \<and> posts author_only = []
   \<and> HASHTAG_RE_findall (pc_caption python_post) = [''Python'', ''PYTHON'', ''python'']
   \<and> explore_trending (fst (create_post ''p1'' ''t2'' python_post author_only))
       = [\<lparr>tag = ''python'', count = 1\<rparr>]
   \<and> \<lparr>tag = ''python'', count = 3\<rparr>
       \<notin> set (explore_trending (fst (create_post ''p1'' ''t2'' python_post author_only)))"
  by code_simp

lemma author_only_reachable: "reachable [''u1''] author_only"
proof -
  have "reachable ([] @ concat (map drawn [CreateUser ''u1'' ''t1'' alice]))
      (run [CreateUser ''u1'' ''t1'' alice] reset_storage)"
    by (rule reachable_run [OF reachable.init]) simp
  then show ?thesis by (simp add: author_only_def)
qed

theorem hashtag_round_trip_once_witness:
  "reachable [''u1''] author_only \<and> ''p1'' \<notin> set [''u1'']
   \<and> map_of (users author_only) (pc_user_id python_post) \<noteq> None
   \<and> posts author_only = []
   \<and> HASHTAG_RE_findall (pc_caption python_post) = [''Python'', ''PYTHON'', ''python'']
   \<and> explore_trending (fst (create_post ''p1'' ''t2'' python_post author_only))
       = [\<lparr>tag = ''python'', count = 1\<rparr>]
   \<and> explore_by_hashtag ''PYTHON'' (fst (create_post ''p1'' ''t2'' python_post author_only))
       = [projr (snd (create_post ''p1'' ''t2'' python_post author_only))]
   \<and> explore_by_hashtag ''pyThOn'' (fst (create_post ''p1'' ''t2'' python_post author_only))
       = [projr (snd (create_post ''p1'' ''t2'' python_post author_only))]
   \<and> po_id (projr (snd (create_post ''p1'' ''t2'' python_post author_only))) = ''p1''"
proof -
  have f: "''p1'' \<notin> set [''u1'']" by simp
  have u: "map_of (users author_only) (pc_user_id python_post) \<noteq> None" by code_simp
  have e: "posts author_only = []" by code_simp
  have c: "HASHTAG_RE_findall (pc_caption python_post) = [''Python'', ''PYTHON'', ''python'']"
    by code_simp
  have l: "lower ''PYTHON'' = ''python''" "lower ''pyThOn'' = ''python''" by code_simp+
  from hashtag_round_trip_once [OF author_only_reachable f u e c, of "''t2''"]
  obtain s' out where all: "create_post ''p1'' ''t2'' python_post author_only = (s', Inr out)
     \<and> po_id out = ''p1''
     \<and> po_hashtags out = [''python'', ''python'', ''python'']
     \<and> explore_trending s' = [\<lparr>tag = ''python'', count = 1\<rparr>]
     \<and> (\<forall>tg. lower tg = ''python'' \<or> same_up_to_case ''python'' tg
           \<longrightarrow> explore_by_hashtag tg s' = [out])"
    by (elim exE) (rule that)
  note r = all [THEN conjunct1]
    and i = all [THEN conjunct2, THEN conjunct1]
    and t = all [THEN conjunct2, THEN conjunct2, THEN conjunct2, THEN conjunct1]
    and h = all [THEN conjunct2, THEN conjunct2, THEN conjunct2, THEN conjunct2]
  from r have s': "s' = fst (create_post ''p1'' ''t2'' python_post author_only)"
    and out: "out = projr (snd (create_post ''p1'' ''t2'' python_post author_only))"
    by simp_all
  from h l have "explore_by_hashtag ''PYTHON'' s' = [out]"
    and "explore_by_hashtag ''pyThOn'' s' = [out]"
    by blast+
  with i t s' out f u e c author_only_reachable show ?thesis by simp
qed

section \<open>Comment sequences\<close>

lemma filter_cong_set: "(\<And>x. x \<in> set xs \<Longrightarrow> P x = Q x) \<Longrightarrow> filter P xs = filter Q xs"
  by (rule filter_cong) simp_all

lemma remove1_filter_distinct:
  "distinct xs \<Longrightarrow> remove1 c (filter P xs) = filter (\<lambda>x. x \<noteq> c \<and> P x) xs"
proof (induction xs)
  case Nil
  show ?case by simp
next
  case (Cons a xs)
  then have "a \<notin> set xs" and IH: "remove1 c (filter P xs) = filter (\<lambda>x. x \<noteq> c \<and> P x) xs"
    by simp_all
  show ?case
  proof (cases "a = c")
    case True
    with \<open>a \<notin> set xs\<close> have "filter (\<lambda>x. x \<noteq> c \<and> P x) xs = filter P xs"
      by (intro filter_cong_set) auto
    with True show ?thesis by simp
  next
    case False
    with IH show ?thesis by simp
  qed
qed

lemma add_comment_ok:
  assumes "map_of (posts s) post_id \<noteq> None" and "map_of (users s) (cc_user_id payload) \<noteq> None"
  shows "comments (fst (add_comment cid now post_id payload s)) =
      (comments s)(cid \<mapsto> \<lparr>c_id = cid, c_user_id = cc_user_id payload, c_post_id = post_id,
          c_text = cc_text payload, c_created_at = now\<rparr>)"
    and "comment_ids (fst (add_comment cid now post_id payload s)) =
      (comment_ids s)(post_id := comment_ids s post_id @ [cid])"
  using assms by (auto simp: add_comment_def Let_def comment_ids_def fun_eq_iff)

lemma add_comment_comments_consistent:
  assumes "comments_consistent ids s" and "ids_cover ids s" and "cid \<notin> set ids"
  shows "comments_consistent (ids @ [cid]) (fst (add_comment cid now post_id payload s))"
proof (cases "map_of (posts s) post_id \<noteq> None \<and> map_of (users s) (cc_user_id payload) \<noteq> None")
  case False
  then have same: "fst (add_comment cid now post_id payload s) = s"
    by (auto simp: add_comment_def)
  from assms(2,3) have "comments s cid = None" by (auto simp: ids_cover_def)
  then have "parent s cid = None" by (simp add: parent_def)
  with assms(1) show ?thesis by (simp add: same comments_consistent_def)
next
  case True
  then have e: "map_of (posts s) post_id \<noteq> None" "map_of (users s) (cc_user_id payload) \<noteq> None"
    by simp_all
  let ?s' = "fst (add_comment cid now post_id payload s)"
  have par: "parent ?s' c = (if c = cid then Some post_id else parent s c)" for c
    by (simp add: parent_def add_comment_ok(1) [OF e])
  have old: "filter (\<lambda>c. parent ?s' c = Some p) ids = filter (\<lambda>c. parent s c = Some p) ids"
    for p
    using assms(3) by (intro filter_cong_set) (auto simp: par)
  from assms(1) have seq: "\<And>p. comment_ids s p = filter (\<lambda>c. parent s c = Some p) ids"
    and own: "\<And>c cm. comments s c = Some cm \<Longrightarrow> c_id cm = c"
    by (simp_all add: comments_consistent_def)
  have "comment_ids ?s' p = filter (\<lambda>c. parent ?s' c = Some p) (ids @ [cid])" for p
  proof -
    have "filter (\<lambda>c. parent ?s' c = Some p) [cid] = (if p = post_id then [cid] else [])"
      by (auto simp: par)
    then have "filter (\<lambda>c. parent ?s' c = Some p) (ids @ [cid])
        = filter (\<lambda>c. parent s c = Some p) ids @ (if p = post_id then [cid] else [])"
      unfolding filter_append old by simp
    then show ?thesis by (simp add: add_comment_ok(2) [OF e] seq)
  qed
  moreover have "c_id cm = c" if "comments ?s' c = Some cm" for c cm
    using that own [of c cm] by (auto simp: add_comment_ok(1) [OF e] split: if_splits)
  ultimately show ?thesis by (simp add: comments_consistent_def)
qed

lemma delete_comment_ok:
  assumes "comments s cid = Some cm"
  shows "comments (fst (delete_comment cid s)) = (comments s)(cid := None)"
    and "comment_ids (fst (delete_comment cid s)) =
      (comment_ids s)(c_post_id cm := remove1 cid (comment_ids s (c_post_id cm)))"
    and "snd (delete_comment cid s) = Inr ''Comment deleted''"
proof -
  from assms show "comments (fst (delete_comment cid s)) = (comments s)(cid := None)"
    by (simp add: delete_comment_def Let_def split: option.splits)
  from assms show "snd (delete_comment cid s) = Inr ''Comment deleted''"
    by (simp add: delete_comment_def Let_def)
  show "comment_ids (fst (delete_comment cid s)) =
      (comment_ids s)(c_post_id cm := remove1 cid (comment_ids s (c_post_id cm)))"
  proof (cases "post_comments s (c_post_id cm)")
    case None
    with assms show ?thesis
      by (auto simp: delete_comment_def Let_def comment_ids_def fun_eq_iff get_or_def)
  next
    case (Some lst)
    with assms show ?thesis
      by (auto simp: delete_comment_def Let_def comment_ids_def fun_eq_iff get_or_def
          remove1_idem)
  qed
qed

lemma delete_comment_comments_consistent:
  assumes "comments_consistent ids s" and "distinct ids"
  shows "comments_consistent ids (fst (delete_comment cid s))"
proof (cases "comments s cid")
  case None
  with assms(1) show ?thesis by (simp add: delete_comment_def)
next
  case (Some cm)
  let ?s' = "fst (delete_comment cid s)"
  from assms(1) have seq: "\<And>p. comment_ids s p = filter (\<lambda>c. parent s c = Some p) ids"
    and own: "\<And>c cm. comments s c = Some cm \<Longrightarrow> c_id cm = c"
    by (simp_all add: comments_consistent_def)
  have par: "parent ?s' c = (if c = cid then None else parent s c)" for c
    by (simp add: parent_def delete_comment_ok(1) [OF Some])
  from Some have pc: "parent s cid = Some (c_post_id cm)" by (simp add: parent_def)
  have "comment_ids ?s' p = filter (\<lambda>c. parent ?s' c = Some p) ids" for p
  proof (cases "p = c_post_id cm")
    case True
    have "filter (\<lambda>c. parent ?s' c = Some p) ids
        = filter (\<lambda>c. c \<noteq> cid \<and> parent s c = Some p) ids"
      by (intro filter_cong_set) (auto simp: par)
    with True show ?thesis
      by (simp add: delete_comment_ok(2) [OF Some] seq remove1_filter_distinct [OF assms(2)])
  next
    case False
    have "filter (\<lambda>c. parent ?s' c = Some p) ids = filter (\<lambda>c. parent s c = Some p) ids"
      using False pc by (intro filter_cong_set) (auto simp: par)
    with False show ?thesis by (simp add: delete_comment_ok(2) [OF Some] seq)
  qed
  moreover have "c_id cm' = c" if "comments ?s' c = Some cm'" for c cm'
    using that own [of c cm'] by (auto simp: delete_comment_ok(1) [OF Some] split: if_splits)
  ultimately show ?thesis by (simp add: comments_consistent_def)
qed

lemma comments_consistent_extend:
  assumes "comments_consistent ids s" and "comments s' = comments s"
    and "comment_ids s' = comment_ids s" and "\<And>x. x \<in> set new \<Longrightarrow> comments s x = None"
  shows "comments_consistent (ids @ new) s'"
proof -
  from assms(2) have par: "parent s' = parent s" by (simp add: parent_def fun_eq_iff)
  from assms(4) have "filter (\<lambda>c. parent s c = Some p) new = []" for p
    by (auto simp: parent_def filter_empty_conv)
  with assms(1) show ?thesis
    by (simp add: comments_consistent_def par assms(2,3))
qed

lemma fresh_no_comment:
  assumes "ids_cover ids s" and "set new \<inter> set ids = {}" and "x \<in> set new"
  shows "comments s x = None"
  using assms by (auto simp: ids_cover_def)

lemma create_post_comment_ids:
  "comment_ids (fst (create_post pid now payload s)) = comment_ids s"
  by (auto simp: create_post_def Let_def comment_ids_def fun_eq_iff)

lemma delete_post_comments_consistent:
  assumes "comments_consistent ids s" and "ids_cover ids s"
  shows "comments_consistent ids (fst (delete_post post_id s))"
proof (cases "map_of (posts s) post_id")
  case None
  with assms(1) show ?thesis by (simp add: delete_post_def)
next
  case (Some pst)
  let ?s' = "fst (delete_post post_id s)"
  from assms(1) have seq: "\<And>p. comment_ids s p = filter (\<lambda>c. parent s c = Some p) ids"
    and own: "\<And>c cm. comments s c = Some cm \<Longrightarrow> c_id cm = c"
    by (simp_all add: comments_consistent_def)
  have known: "c \<in> set ids" if "parent s c = Some p" for c p
    using that assms(2) by (auto simp: parent_def ids_cover_def)
  have com: "comments ?s' c = (if parent s c = Some post_id then None else comments s c)" for c
    using known [of c post_id]
    by (auto simp: delete_post_ok(4) [OF Some] pop_comments_eq comment_ids_def [symmetric] seq)
  have par: "parent ?s' c = (if parent s c = Some post_id then None else parent s c)" for c
    unfolding parent_def [of ?s'] com by (auto simp: parent_def [of s])
  have ids': "comment_ids ?s' = (comment_ids s)(post_id := [])"
    by (auto simp: comment_ids_def delete_post_ok(3) [OF Some] fun_eq_iff get_or_def)
  have "comment_ids ?s' p = filter (\<lambda>c. parent ?s' c = Some p) ids" for p
  proof (cases "p = post_id")
    case True
    have "filter (\<lambda>c. parent ?s' c = Some p) ids = []"
      using True by (auto simp: par filter_empty_conv)
    with True show ?thesis by (simp add: ids')
  next
    case False
    have "filter (\<lambda>c. parent ?s' c = Some p) ids = filter (\<lambda>c. parent s c = Some p) ids"
      using False by (intro filter_cong_set) (auto simp: par)
    with False show ?thesis by (simp add: ids' seq)
  qed
  moreover have "c_id cm = c" if "comments ?s' c = Some cm" for c cm
    using that own [of c cm] by (auto simp: com split: if_splits)
  ultimately show ?thesis by (simp add: comments_consistent_def)
qed

lemma exec_comments_consistent:
  assumes "comments_consistent ids s" and "ids_cover ids s"
    and "set (drawn operation) \<inter> set ids = {}"
  shows "comments_consistent (ids @ drawn operation) (fst (exec operation s))"
proof (cases operation)
  case (CreateUser uid now payload)
  with assms show ?thesis
    by (auto intro!: comments_consistent_extend [where s = s] fresh_no_comment
        simp: create_user_keys comment_ids_def)
next
  case (CreatePost pid now payload)
  with assms show ?thesis
    by (auto intro!: comments_consistent_extend [where s = s] fresh_no_comment
        simp: frame create_post_comment_ids)
next
  case (DeletePost post_id)
  with assms show ?thesis by (simp add: delete_post_comments_consistent)
next
  case (AddComment cid now post_id user_id body)
  show ?thesis
  proof (cases "text_must_not_be_blank body")
    case (Inl e)
    with AddComment assms show ?thesis
      by (auto intro!: comments_consistent_extend [where s = s] fresh_no_comment)
  next
    case (Inr v)
    with AddComment assms show ?thesis
      by (simp add: add_comment_comments_consistent)
  qed
next
  case (DeleteComment comment_id)
  with assms show ?thesis
    by (simp add: delete_comment_comments_consistent ids_cover_def)
qed (use assms(1) in \<open>simp_all add: comments_consistent_def parent_def comment_ids_def frame\<close>)

lemma reachable_comments_consistent: "reachable ids s \<Longrightarrow> comments_consistent ids s"
proof (induction rule: reachable.induct)
  case init
  show ?case
    by (simp add: comments_consistent_def comment_ids_def parent_def reset_storage_def get_or_def)
next
  case (step ids s operation)
  from exec_comments_consistent [OF step.IH reachable_ids_cover [OF step.hyps(1)] step.hyps(2)]
  show ?case .
qed

section \<open>Order of the comment sequences\<close>

lemma parent_eq: "parent s c = Some p \<longleftrightarrow> (\<exists>cm. comments s c = Some cm \<and> c_post_id cm = p)"
  by (auto simp: parent_def)

lemma map_filter_all_present:
  "(\<And>c. c \<in> set cs \<Longrightarrow> \<exists>cm. m c = Some cm \<and> f cm = c) \<Longrightarrow> map f (List.map_filter m cs) = cs"
proof (induction cs)
  case Nil
  show ?case by (simp add: List.map_filter_simps)
next
  case (Cons a cs)
  from Cons.prems [of a] obtain cm where "m a = Some cm" and "f cm = a" by auto
  moreover from Cons have "map f (List.map_filter m cs) = cs" by simp
  ultimately show ?case by (simp add: List.map_filter_simps)
qed

lemma map_filter_parent:
  "(\<And>c. c \<in> set cs \<Longrightarrow> \<exists>cm. m c = Some cm \<and> c_post_id cm = p)
   \<Longrightarrow> cm \<in> set (List.map_filter m cs) \<Longrightarrow> c_post_id cm = p"
proof (induction cs)
  case Nil
  then show ?case by (simp add: List.map_filter_simps)
next
  case (Cons a cs)
  from Cons.prems(1) [of a] obtain cm' where a: "m a = Some cm'" and p: "c_post_id cm' = p"
    by auto
  from Cons.prems(2) a have "cm = cm' \<or> cm \<in> set (List.map_filter m cs)"
    by (simp add: List.map_filter_simps)
  then show ?case
  proof
    assume "cm = cm'"
    with p show ?thesis by simp
  next
    assume "cm \<in> set (List.map_filter m cs)"
    with Cons.IH Cons.prems(1) show ?thesis by simp
  qed
qed

lemma reachable_comment_ids:
  assumes "reachable ids s"
  shows "comment_ids s p = filter (\<lambda>c. \<exists>cm. comments s c = Some cm \<and> c_post_id cm = p) ids"
    and "distinct (comment_ids s p)"
    and "c \<in> set (comment_ids s p) \<Longrightarrow> \<exists>cm. comments s c = Some cm \<and> c_id cm = c \<and> c_post_id cm = p"
proof -
  from reachable_comments_consistent [OF assms]
  have seq: "comment_ids s p = filter (\<lambda>c. parent s c = Some p) ids"
    and own: "\<And>c cm. comments s c = Some cm \<Longrightarrow> c_id cm = c"
    by (simp_all add: comments_consistent_def)
  from seq show 1: "comment_ids s p
      = filter (\<lambda>c. \<exists>cm. comments s c = Some cm \<and> c_post_id cm = p) ids"
    by (simp add: parent_eq)
  from reachable_ids_cover [OF assms] have "distinct ids" by (simp add: ids_cover_def)
  then show "distinct (comment_ids s p)" by (simp add: seq)
  assume "c \<in> set (comment_ids s p)"
  then obtain cm where "comments s c = Some cm" and "c_post_id cm = p" by (auto simp: 1)
  with own [of c cm] show "\<exists>cm. comments s c = Some cm \<and> c_id cm = c \<and> c_post_id cm = p"
    by simp
qed

lemma get_comments_listing:
  assumes "reachable ids s" and "map_of (posts s) p \<noteq> None"
  shows "\<exists>outs. get_comments p s = (s, Inr outs) \<and> map co_id outs = comment_ids s p
    \<and> (\<forall>out \<in> set outs. co_post_id out = p)"
proof -
  let ?cms = "List.map_filter (comments s) (comment_ids s p)"
  from assms(2) have g: "get_comments p s = (s, Inr (map build_comment_out ?cms))"
    by (auto simp: get_comments_def comment_ids_def)
  have "map c_id ?cms = comment_ids s p"
    using reachable_comment_ids(3) [OF assms(1), of _ p]
    by (intro map_filter_all_present) blast
  then have 1: "map co_id (map build_comment_out ?cms) = comment_ids s p"
    by (simp add: build_comment_out_def comp_def)
  have "c_post_id cm = p" if "cm \<in> set ?cms" for cm
    using reachable_comment_ids(3) [OF assms(1), of _ p] that
    by (intro map_filter_parent [of "comment_ids s p" "comments s" p cm]) blast+
  then have 2: "\<forall>out \<in> set (map build_comment_out ?cms). co_post_id out = p"
    by (auto simp: build_comment_out_def)
  from g 1 2 show ?thesis by blast
qed

lemma reachable_delete_comment:
  assumes "reachable ids s"
  shows "reachable ids (fst (delete_comment c s))"
  using reachable.step [OF assms, of "DeleteComment c"] by simp

lemma delete_comment_listing:
  assumes "reachable ids s" and "comments s c = Some cm"
  shows "\<exists>s'. delete_comment c s = (s', Inr ''Comment deleted'') \<and> comments s' c = None
    \<and> (\<forall>q. comment_ids s' q = filter (\<lambda>x. x \<noteq> c) (comment_ids s q))
    \<and> (\<forall>x. x \<noteq> c \<longrightarrow> comments s' x = comments s x)"
proof -
  let ?s' = "fst (delete_comment c s)"
  have 1: "delete_comment c s = (?s', Inr ''Comment deleted'')"
    using delete_comment_ok(3) [OF assms(2)] by (simp add: prod_eq_iff)
  have com: "comments ?s' = (comments s)(c := None)" by (rule delete_comment_ok(1) [OF assms(2)])
  have "comment_ids ?s' q = filter (\<lambda>x. x \<noteq> c) (comment_ids s q)" for q
  proof -
    have "filter (\<lambda>x. \<exists>cm. comments ?s' x = Some cm \<and> c_post_id cm = q) ids
        = filter (\<lambda>x. x \<noteq> c \<and> (\<exists>cm. comments s x = Some cm \<and> c_post_id cm = q)) ids"
      by (intro filter_cong_set) (auto simp: com)
    then show ?thesis
      unfolding reachable_comment_ids(1) [OF reachable_delete_comment [OF assms(1)]]
        reachable_comment_ids(1) [OF assms(1)]
      by (simp add: conj_commute)
  qed
  with 1 com show ?thesis by (intro exI [of _ ?s']) simp
qed

lemma add_comment_appends:
  assumes "map_of (posts s) p \<noteq> None" and "map_of (users s) (cc_user_id payload) \<noteq> None"
  shows "comment_ids (fst (add_comment cid now p payload s)) p = comment_ids s p @ [cid]"
  by (simp add: add_comment_ok(2) [OF assms])

text \<open>
  Claim C9. In every reachable state, the comment-id sequence of a post is the list of
  identifiers drawn so far, in drawing order (oldest first), restricted to the comments
  that are stored and whose parent is that post, so it has no duplicates, contains exactly
  the existing comments of the post and lists them in creation order. Listing the comments
  of an existing post succeeds and returns the comments with exactly these identifiers in
  this order, each with that post as parent. Adding a comment to an existing post by an
  existing user appends its identifier at the end. Deleting a stored comment succeeds,
  removes that comment from the store, removes only its identifier from every sequence
  (the others keep their relative order) and leaves every other comment as it was.
\<close>

theorem comment_sequence_order:
  assumes "reachable ids s"
  shows "comment_ids s p = filter (\<lambda>c. \<exists>cm. comments s c = Some cm \<and> c_post_id cm = p) ids
    \<and> distinct (comment_ids s p)
    \<and> (map_of (posts s) p \<noteq> None \<longrightarrow>
         (\<exists>outs. get_comments p s = (s, Inr outs) \<and> map co_id outs = comment_ids s p
           \<and> (\<forall>out \<in> set outs. co_post_id out = p)))
    \<and> (map_of (posts s) p \<noteq> None \<and> map_of (users s) (cc_user_id payload) \<noteq> None \<longrightarrow>
         comment_ids (fst (add_comment cid now p payload s)) p = comment_ids s p @ [cid])
    \<and> (comments s c = Some cm \<longrightarrow>
         (\<exists>s'. delete_comment c s = (s', Inr ''Comment deleted'') \<and> comments s' c = None
           \<and> (\<forall>q. comment_ids s' q = filter (\<lambda>x. x \<noteq> c) (comment_ids s q))
           \<and> (\<forall>x. x \<noteq> c \<longrightarrow> comments s' x = comments s x)))"
  using reachable_comment_ids(1,2) [OF assms, of p] get_comments_listing [OF assms, of p]
    add_comment_appends [of s p payload cid now] delete_comment_listing [OF assms, of c cm]
  by blast


theorem comment_sequence_order_witness:
  "reachable demo_ids demo
   \<and> map_of (posts demo) ''p1'' \<noteq> None
   \<and> map_of (users demo) (cc_user_id demo_reply) \<noteq> None
   \<and> comments demo ''c1'' \<noteq> None
   \<and> comment_ids demo ''p1'' = [''c1'', ''c2'']
   \<and> map co_id (projr (snd (get_comments ''p1'' demo))) = [''c1'', ''c2'']
   \<and> comment_ids (fst (add_comment ''c4'' ''t9'' ''p1'' demo_reply demo)) ''p1''
       = [''c1'', ''c2'', ''c4'']
   \<and> snd (delete_comment ''c1'' demo) = Inr ''Comment deleted''
   \<and> comment_ids (fst (delete_comment ''c1'' demo)) ''p1'' = [''c2'']
   \<and> comment_ids (fst (delete_comment ''c1'' demo)) ''p3'' = [''c3'']
   \<and> comments (fst (delete_comment ''c1'' demo)) ''c1'' = None"
proof -
  have p: "map_of (posts demo) ''p1'' \<noteq> None" by code_simp
  have u: "map_of (users demo) (cc_user_id demo_reply) \<noteq> None" by code_simp
  have c: "comments demo ''c1'' \<noteq> None" by code_simp
  then obtain cm where cm: "comments demo ''c1'' = Some cm" by blast
  have l: "comment_ids demo ''p1'' = [''c1'', ''c2'']" "comment_ids demo ''p3'' = [''c3'']"
    by code_simp+
  note all = comment_sequence_order [OF demo_reachable_ids,
      of "''p1''" demo_reply "''c4''" "''t9''" "''c1''" cm]
  note g = all [THEN conjunct2, THEN conjunct2, THEN conjunct1, rule_format, OF p]
    and a = all [THEN conjunct2, THEN conjunct2, THEN conjunct2, THEN conjunct1, rule_format,
      OF conjI [OF p u]]
    and d = all [THEN conjunct2, THEN conjunct2, THEN conjunct2, THEN conjunct2, rule_format,
      OF cm]
  from g l(1) have 1: "map co_id (projr (snd (get_comments ''p1'' demo))) = [''c1'', ''c2'']"
    by auto
  from a l(1) have 2: "comment_ids (fst (add_comment ''c4'' ''t9'' ''p1'' demo_reply demo)) ''p1''
      = [''c1'', ''c2'', ''c4'']"
    by simp
  from d obtain s' where e: "delete_comment ''c1'' demo = (s', Inr ''Comment deleted'')"
    and n: "comments s' ''c1'' = None"
    and q: "\<And>q. comment_ids s' q = filter (\<lambda>x. x \<noteq> ''c1'') (comment_ids demo q)"
    by blast
  from e have 3: "snd (delete_comment ''c1'' demo) = Inr ''Comment deleted''" by simp
  from e q [of "''p1''"] l(1)
  have 4: "comment_ids (fst (delete_comment ''c1'' demo)) ''p1'' = [''c2'']" by simp
  from e q [of "''p3''"] l(2)
  have 5: "comment_ids (fst (delete_comment ''c1'' demo)) ''p3'' = [''c3'']" by simp
  from e n have 6: "comments (fst (delete_comment ''c1'' demo)) ''c1'' = None" by simp
  from demo_reachable_ids p u c l(1) 1 2 3 4 5 6 show ?thesis by simp
qed

end
